theory Spec2Isabelle
  imports Complex_Main "HOL-Library.Log_Nat"
begin

section \<open>The admin store\<close>

text \<open>
  \<^verbatim>\<open>main.py\<close> keeps two module-level sets: \<^verbatim>\<open>ADMINS\<close>, seeded with
  \<^verbatim>\<open>MAIN_ADMIN_ID\<close>, which the bot consults for access, and
  \<^verbatim>\<open>ADDITIONAL_ADMINS\<close>, the regular admins. Telegram user ids are Python
  integers. \<^verbatim>\<open>MAIN_ADMIN_ID\<close> is read once from the environment, so every
  handler below takes it as its first argument.
\<close>

record admin_state =
  ADMINS :: "int set"
  ADDITIONAL_ADMINS :: "int set"

definition initial_state :: "int \<Rightarrow> admin_state" where
  "initial_state MAIN_ADMIN_ID = \<lparr>ADMINS = {MAIN_ADMIN_ID}, ADDITIONAL_ADMINS = {}\<rparr>"

text \<open>The access test of \<^verbatim>\<open>handle_gofile\<close> and \<^verbatim>\<open>start\<close>: \<^verbatim>\<open>user_id in ADMINS\<close>.\<close>

definition is_authorized :: "admin_state \<Rightarrow> int \<Rightarrow> bool" where
  "is_authorized s user_id \<longleftrightarrow> user_id \<in> ADMINS s"

text \<open>
  What a handler of the admin commands does besides changing the sets: the one reply it
  sends, or the exception that leaves it. \<^verbatim>\<open>set.remove\<close> raises \<^verbatim>\<open>KeyError\<close>
  on an absent element, and the handlers catch \<^verbatim>\<open>ValueError\<close> only.
\<close>

datatype admin_reply =
    ACCESS_DENIED
  | USAGE
  | ALREADY_MAIN_ADMIN
  | ALREADY_REGULAR_ADMIN int
  | ADDED int
  | CANNOT_REMOVE_MAIN
  | NOT_REGULAR_ADMIN int
  | REMOVED int
  | INVALID_USER_ID
  | RAISED_KeyError int

text \<open>
  \<^verbatim>\<open>context.args\<close> is the list of the command's arguments. The admin handlers read
  only \<^verbatim>\<open>int(context.args[0])\<close>, so each argument is given here by what
  \<^verbatim>\<open>int\<close> makes of it: \<open>Some n\<close>, or \<open>None\<close> where it raises
  \<^verbatim>\<open>ValueError\<close>.
\<close>

fun add_admin :: "int \<Rightarrow> int \<Rightarrow> int option list \<Rightarrow> admin_state \<Rightarrow> admin_reply \<times> admin_state" where
  "add_admin MAIN_ADMIN_ID user_id args s =
     (if user_id \<noteq> MAIN_ADMIN_ID then (ACCESS_DENIED, s)
      else case args of
        [] \<Rightarrow> (USAGE, s)
      | None # _ \<Rightarrow> (INVALID_USER_ID, s)
      | Some new_admin_id # _ \<Rightarrow>
          if new_admin_id = MAIN_ADMIN_ID then (ALREADY_MAIN_ADMIN, s)
          else if new_admin_id \<in> ADDITIONAL_ADMINS s then (ALREADY_REGULAR_ADMIN new_admin_id, s)
          else (ADDED new_admin_id,
                s\<lparr>ADDITIONAL_ADMINS := insert new_admin_id (ADDITIONAL_ADMINS s),
                  ADMINS := insert new_admin_id (ADMINS s)\<rparr>))"

fun remove_admin :: "int \<Rightarrow> int \<Rightarrow> int option list \<Rightarrow> admin_state \<Rightarrow> admin_reply \<times> admin_state" where
  "remove_admin MAIN_ADMIN_ID user_id args s =
     (if user_id \<noteq> MAIN_ADMIN_ID then (ACCESS_DENIED, s)
      else case args of
        [] \<Rightarrow> (USAGE, s)
      | None # _ \<Rightarrow> (INVALID_USER_ID, s)
      | Some target_id # _ \<Rightarrow>
          if target_id = MAIN_ADMIN_ID then (CANNOT_REMOVE_MAIN, s)
          else if target_id \<notin> ADDITIONAL_ADMINS s then (NOT_REGULAR_ADMIN target_id, s)
          else let s1 = s\<lparr>ADDITIONAL_ADMINS := ADDITIONAL_ADMINS s - {target_id}\<rparr> in
               if target_id \<notin> ADMINS s1 then (RAISED_KeyError target_id, s1)
               else (REMOVED target_id, s1\<lparr>ADMINS := ADMINS s1 - {target_id}\<rparr>))"

text \<open>A session of the bot: the admin commands it receives, in order.\<close>

datatype admin_command =
    Admin int "int option list"
  | Remove int "int option list"

fun run_command :: "int \<Rightarrow> admin_command \<Rightarrow> admin_state \<Rightarrow> admin_state" where
  "run_command MAIN_ADMIN_ID (Admin user_id args) s = snd (add_admin MAIN_ADMIN_ID user_id args s)"
| "run_command MAIN_ADMIN_ID (Remove user_id args) s = snd (remove_admin MAIN_ADMIN_ID user_id args s)"

fun run_commands :: "int \<Rightarrow> admin_command list \<Rightarrow> admin_state \<Rightarrow> admin_state" where
  "run_commands MAIN_ADMIN_ID [] s = s"
| "run_commands MAIN_ADMIN_ID (c # cs) s = run_commands MAIN_ADMIN_ID cs (run_command MAIN_ADMIN_ID c s)"

text \<open>
  The data-model invariant: the access set is the main admin together with the regular
  admins, and the main admin is not a regular admin.
\<close>

definition admin_inv :: "int \<Rightarrow> admin_state \<Rightarrow> bool" where
  "admin_inv MAIN_ADMIN_ID s \<longleftrightarrow>
     ADMINS s = insert MAIN_ADMIN_ID (ADDITIONAL_ADMINS s) \<and> MAIN_ADMIN_ID \<notin> ADDITIONAL_ADMINS s"

section \<open>Python values\<close>

text \<open>
  A Python \<^verbatim>\<open>str\<close> is a sequence of Unicode code points, so it is a list of
  naturals here; \<open>lit\<close> embeds an ASCII literal. The two glyphs of the progress bar
  are U+2B50 and U+2606.
\<close>

type_synonym pystr = "nat list"

definition lit :: "string \<Rightarrow> pystr" where
  "lit s = map of_char s"

definition STAR :: nat where
  "STAR = 11088"

definition WHITE_STAR :: nat where
  "WHITE_STAR = 9734"

text \<open>\<^verbatim>\<open>str(n)\<close> of an integer: its decimal digits, with a minus sign when negative.\<close>

fun digits :: "nat \<Rightarrow> pystr" where
  "digits n = (if n < 10 then [48 + n] else digits (n div 10) @ [48 + n mod 10])"

definition str_int :: "int \<Rightarrow> pystr" where
  "str_int i = (if i < 0 then lit ''-'' @ digits (nat (- i)) else digits (nat i))"

text \<open>
  The exceptions that the modelled code meets. \<open>Exception\<close> is what \<^verbatim>\<open>main.py\<close>
  raises itself, with its message; \<open>LibraryError\<close> is any exception that comes out of a
  collaborator (the Mega client, \<^verbatim>\<open>requests\<close>, the file system), with its message.
\<close>

datatype py_exception =
    ZeroDivisionError
  | OverflowError
  | AttributeError
  | KeyError pystr
  | LibraryError pystr
  | Exception pystr

subsection \<open>Floating point\<close>

text \<open>
  A Python \<^verbatim>\<open>float\<close> is an IEEE 754 binary64 number. A finite one is the rational
  \<open>m * 2 ^ e\<close> with \<open>\<bar>m\<bar> < 2 ^ 53\<close> and \<open>- 1074 \<le> e\<close>; \<open>round_double\<close> gives the
  nearest such number to an exact result, ties to the even significand, as the division
  of two integers and the product of two floats do in CPython. The exponent has no
  upper bound here: a value of magnitude \<open>2 ^ 1024\<close> or more stands for an overflow,
  which \<open>py_truediv\<close> and \<open>py_int\<close> turn into \<^verbatim>\<open>OverflowError\<close>.
\<close>

definition round_half_even :: "rat \<Rightarrow> int" where
  "round_half_even x =
     (let q = \<lfloor>x\<rfloor>; r = x - of_int q
      in if r < 1 / 2 then q else if 1 / 2 < r then q + 1 else if even q then q else q + 1)"

text \<open>
  For \<open>0 < x\<close>, \<open>floor_log2 x\<close> is the \<open>k\<close> with \<open>2 ^ k \<le> x < 2 ^ (k + 1)\<close>, read off
  the bit length of the integer part of \<open>x\<close> or of \<open>1 / x\<close>.
\<close>

definition floor_log2 :: "rat \<Rightarrow> int" where
  "floor_log2 x = (if 1 \<le> x then bitlen \<lfloor>x\<rfloor> - 1 else - bitlen (\<lceil>1 / x\<rceil> - 1))"

definition double_exponent :: "rat \<Rightarrow> int" where
  "double_exponent x = max (floor_log2 x - 52) (- 1074)"

definition round_double :: "rat \<Rightarrow> rat" where
  "round_double x =
     (if x = 0 then 0
      else let e = double_exponent \<bar>x\<bar>
           in sgn x * of_int (round_half_even (\<bar>x\<bar> / 2 powi e)) * 2 powi e)"

definition DBL_OVERFLOW :: rat where
  "DBL_OVERFLOW = 2 ^ 1024"

text \<open>\<^verbatim>\<open>a / b\<close> on two integers.\<close>

definition py_truediv :: "int \<Rightarrow> int \<Rightarrow> py_exception + rat" where
  "py_truediv a b =
     (if b = 0 then Inl ZeroDivisionError
      else let q = round_double (of_int a / of_int b)
           in if DBL_OVERFLOW \<le> \<bar>q\<bar> then Inl OverflowError else Inr q)"

text \<open>\<^verbatim>\<open>x * n\<close> on a float and an integer that a float holds exactly.\<close>

definition py_float_mul :: "rat \<Rightarrow> int \<Rightarrow> rat" where
  "py_float_mul x n = round_double (x * of_int n)"

text \<open>\<^verbatim>\<open>int(x)\<close> on a float: truncation towards zero; infinity raises.\<close>

definition py_int :: "rat \<Rightarrow> py_exception + int" where
  "py_int x =
     (if DBL_OVERFLOW \<le> \<bar>x\<bar> then Inl OverflowError
      else Inr (if 0 \<le> x then \<lfloor>x\<rfloor> else \<lceil>x\<rceil>))"

section \<open>The progress bar\<close>

text \<open>
  \<^verbatim>\<open>create_progress_bar(percentage, width=20)\<close>. Every caller passes an integer
  percentage. A negative count repeats a string zero times.
\<close>

definition create_progress_bar :: "int \<Rightarrow> int \<Rightarrow> py_exception + pystr" where
  "create_progress_bar percentage width =
     (case py_truediv (width * percentage) 100 of
        Inl e \<Rightarrow> Inl e
      | Inr q \<Rightarrow>
          (case py_int q of
             Inl e \<Rightarrow> Inl e
           | Inr filled \<Rightarrow>
               let empty = width - filled;
                   progress = replicate (nat filled) STAR @ replicate (nat empty) WHITE_STAR
               in Inr (lit ''['' @ progress @ lit ''] '' @ str_int percentage @ lit ''%'')))"

section \<open>The transfer handler\<close>

subsection \<open>What the handler does to the outside\<close>

text \<open>
  The texts that \<^verbatim>\<open>handle_gofile\<close> sends, one constructor for each template, with
  the parts that vary. \<open>ERROR_MSG e\<close> is the text built from \<^verbatim>\<open>str(e)\<close> in the
  handler's \<^verbatim>\<open>except\<close> block.
\<close>

datatype message =
    ACCESS_DENIED_MSG
  | USAGE_MSG
  | INVALID_LINK_MSG
  | STARTING_DOWNLOAD_MSG
  | DOWNLOADING_MSG pystr pystr
  | STARTING_UPLOAD_MSG
  | UPLOADING_MSG pystr pystr
  | SUCCESS_MSG pystr pystr
  | ERROR_MSG py_exception

text \<open>
  The trace of a run: the chat messages sent (\<^verbatim>\<open>reply_text\<close>) and edited
  (\<^verbatim>\<open>edit_text\<close>), the two requests that the handler makes itself, and the start of
  the two worker threads, which make the long-running requests. Chat calls are taken to
  be delivered; their own failures are outside this model.
\<close>

datatype event =
    REPLY message
  | EDIT message
  | MEGA_GET_PUBLIC_FILE pystr
  | START_DOWNLOAD_THREAD pystr
  | GOFILE_GET_SERVERS
  | START_UPLOAD_THREAD pystr pystr

text \<open>The body of the upload response, as far as the handler reads it.\<close>

record response =
  status :: "pystr option"
  data_message :: "pystr option"
  data_downloadPage :: "pystr option"

text \<open>
  Everything the handler's surroundings decide: the results of the collaborators' calls,
  the sizes that the poller finds in the temporary directory (one for each iteration of
  the download loop), the chunks that \<^verbatim>\<open>requests\<close> reads from the file, and how the
  two worker threads are scheduled against the handler (see \<open>run_worker\<close>).
\<close>

record world =
  mega_get_public_file :: "pystr + int \<times> pystr"
  mega_download_url :: "pystr option"
  dir_size :: "nat \<Rightarrow> nat"
  dl_schedule :: "nat \<Rightarrow> nat"
  get_servers :: "pystr + pystr"
  getsize :: "pystr + nat"
  upload_reads :: "nat list"
  post :: "pystr + response"
  ul_schedule :: "nat \<Rightarrow> nat"

text \<open>
  \<open>mega_get_public_file\<close> is \<^verbatim>\<open>mega.get_public_file(mega_link)\<close> with the two fields read
  from it, the declared size and the name; \<open>mega_download_url\<close> is \<open>None\<close> when
  \<^verbatim>\<open>mega.download_url\<close> returns; \<open>get_servers\<close> is the name of the first server;
  \<open>getsize\<close> is \<^verbatim>\<open>os.path.getsize(downloaded_path)\<close>; \<open>post\<close> is the parsed body
  when \<^verbatim>\<open>open\<close>, \<^verbatim>\<open>requests.post\<close>, \<^verbatim>\<open>raise_for_status\<close> and \<^verbatim>\<open>json\<close>
  all succeed. On the left of a sum is the message of the exception raised instead.
\<close>

subsection \<open>The worker threads\<close>

text \<open>
  The variables that a worker thread and the handler share, and the writes of the
  worker that are still to come. A worker is the list of its writes to shared variables
  in program order; the scheduler decides how many of them happen between two steps of
  the handler.
\<close>

datatype step =
    SET_DOWNLOADED int
  | SET_DOWNLOAD_COMPLETE
  | SET_UPLOADED int
  | SET_UPLOAD_COMPLETE

record shared =
  downloaded :: int
  download_complete :: bool
  uploaded :: int
  upload_complete :: bool
  pending :: "step list"

fun do_step :: "step \<Rightarrow> shared \<Rightarrow> shared" where
  "do_step (SET_DOWNLOADED n) sh = sh\<lparr>downloaded := n\<rparr>"
| "do_step SET_DOWNLOAD_COMPLETE sh = sh\<lparr>download_complete := True\<rparr>"
| "do_step (SET_UPLOADED n) sh = sh\<lparr>uploaded := n\<rparr>"
| "do_step SET_UPLOAD_COMPLETE sh = sh\<lparr>upload_complete := True\<rparr>"

fun run_worker :: "nat \<Rightarrow> shared \<Rightarrow> shared" where
  "run_worker n sh =
     (if n = 0 then sh
      else (case pending sh of
              [] \<Rightarrow> sh
            | a # rest \<Rightarrow> run_worker (n - 1) (do_step a (sh\<lparr>pending := rest\<rparr>))))"

text \<open>
  Both workers enter \<^verbatim>\<open>with lock:\<close> in their \<^verbatim>\<open>except\<close> branch, where
  \<^verbatim>\<open>lock\<close> is an \<^verbatim>\<open>asyncio.Lock\<close>. That class has an asynchronous context manager
  only, so the statement raises in every CPython that runs this code (\<open>ENTER_RAISES\<close>)
  and the rest of the branch is not reached. The behaviour belongs to the library; the
  model takes it as a parameter and also covers a lock that could be entered
  (\<open>ENTERED\<close>).
\<close>

datatype with_lock = ENTER_RAISES | ENTERED

text \<open>
  \<^verbatim>\<open>download_thread\<close>: after \<^verbatim>\<open>mega.download_url\<close> returns, the event is set;
  after it raises, the \<^verbatim>\<open>except\<close> branch enters the lock, writes the sentinel
  under it, and then sets the event.
\<close>

definition download_thread :: "with_lock \<Rightarrow> pystr option \<Rightarrow> step list" where
  "download_thread lk outcome =
     (case outcome of
        None \<Rightarrow> [SET_DOWNLOAD_COMPLETE]
      | Some e \<Rightarrow>
          (case lk of
             ENTER_RAISES \<Rightarrow> []
           | ENTERED \<Rightarrow> [SET_DOWNLOADED (- 1), SET_DOWNLOAD_COMPLETE]))"

text \<open>
  \<^verbatim>\<open>ProgressFile.read\<close> adds the length of every non-empty chunk to its counter and
  copies the counter to the shared \<^verbatim>\<open>uploaded\<close>.
\<close>

fun read_steps :: "int \<Rightarrow> nat list \<Rightarrow> step list" where
  "read_steps n [] = []"
| "read_steps n (c # cs) =
     (if c = 0 then read_steps n cs
      else SET_UPLOADED (n + int c) # read_steps (n + int c) cs)"

text \<open>
  \<^verbatim>\<open>upload_thread\<close>: when \<^verbatim>\<open>requests.post\<close>, \<^verbatim>\<open>raise_for_status\<close> and
  \<^verbatim>\<open>json\<close> succeed the function returns the body and touches nothing shared. In the
  \<^verbatim>\<open>except\<close> branch \<^verbatim>\<open>uploaded = -1\<close> assigns a variable local to
  \<^verbatim>\<open>upload_thread\<close> (there is no \<^verbatim>\<open>nonlocal\<close> declaration), so under the lock
  the only shared write is the event.
\<close>

definition upload_thread :: "with_lock \<Rightarrow> nat list \<Rightarrow> pystr + response \<Rightarrow> step list" where
  "upload_thread lk reads outcome =
     read_steps 0 reads @
     (case outcome of
        Inr resp \<Rightarrow> []
      | Inl e \<Rightarrow>
          (case lk of
             ENTER_RAISES \<Rightarrow> []
           | ENTERED \<Rightarrow> [SET_UPLOAD_COMPLETE]))"

subsection \<open>The polling loops\<close>

text \<open>\<^verbatim>\<open>min(100, int(n / total * 100))\<close>.\<close>

definition percent :: "int \<Rightarrow> int \<Rightarrow> py_exception + int" where
  "percent n total_size =
     (case py_truediv n total_size of
        Inl e \<Rightarrow> Inl e
      | Inr q \<Rightarrow>
          (case py_int (py_float_mul q 100) of
             Inl e \<Rightarrow> Inl e
           | Inr p \<Rightarrow> Inr (min 100 p)))"

text \<open>
  The rule of both loops: given the last reported percent and the new one, the edit to
  make (if any) and the new last reported percent.
\<close>

definition report :: "(pystr \<Rightarrow> message) \<Rightarrow> int \<Rightarrow> int \<Rightarrow> py_exception + event list \<times> int" where
  "report msg last_update progress =
     (if progress \<noteq> last_update \<and> progress mod 5 = 0
      then (case create_progress_bar progress 20 of
              Inl e \<Rightarrow> Inl e
            | Inr progress_bar \<Rightarrow> Inr ([EDIT (msg progress_bar)], progress))
      else Inr ([], last_update))"

text \<open>
  A run of a loop either is still waiting when the observation ends, or has left the
  loop by an exception, or has left it normally.
\<close>

datatype 'a run = WAITING | RAISED py_exception | DONE 'a

text \<open>
  One iteration of the download loop, number \<open>k\<close>. The worker may act while the handler
  sleeps (slot \<open>3 * k + 1\<close>), between the write to \<^verbatim>\<open>downloaded\<close> and its use (slot
  \<open>3 * k + 2\<close>), and before the next test of the event (slot \<open>3 * k + 3\<close>).
\<close>

definition download_iteration ::
  "world \<Rightarrow> int \<Rightarrow> pystr \<Rightarrow> nat \<Rightarrow> shared \<Rightarrow> int \<Rightarrow> py_exception + shared \<times> int \<times> event list" where
  "download_iteration w total_size file_name k sh last_update =
     (let sh1 = run_worker (dl_schedule w (3 * k + 1)) sh;
          current_size = int (dir_size w k);
          sh2 = run_worker (dl_schedule w (3 * k + 2)) (sh1\<lparr>downloaded := current_size\<rparr>)
      in if 0 < total_size
         then (case percent (downloaded sh2) total_size of
                 Inl e \<Rightarrow> Inl e
               | Inr progress \<Rightarrow>
                   (case report (DOWNLOADING_MSG file_name) last_update progress of
                      Inl e \<Rightarrow> Inl e
                    | Inr (evs, last_update') \<Rightarrow>
                        Inr (run_worker (dl_schedule w (3 * k + 3)) sh2, last_update', evs)))
         else Inr (run_worker (dl_schedule w (3 * k + 3)) sh2, last_update, []))"

text \<open>
  \<^verbatim>\<open>while not download_complete.is_set()\<close>. \<open>fuel\<close> bounds the iterations that are
  observed; the loop itself has no bound. A normal exit returns the fuel that is left.
\<close>

fun download_loop ::
  "world \<Rightarrow> int \<Rightarrow> pystr \<Rightarrow> nat \<Rightarrow> nat \<Rightarrow> shared \<Rightarrow> int \<Rightarrow> event list \<Rightarrow> event list \<times> (shared \<times> nat) run" where
  "download_loop w total_size file_name fuel k sh last_update evs =
     (if download_complete sh then (evs, DONE (sh, fuel))
      else if fuel = 0 then (evs, WAITING)
      else (case download_iteration w total_size file_name k sh last_update of
              Inl e \<Rightarrow> (evs, RAISED e)
            | Inr (sh', last_update', new) \<Rightarrow>
                download_loop w total_size file_name (fuel - 1) (Suc k) sh' last_update' (evs @ new)))"

text \<open>
  One iteration of the upload loop: the handler sleeps (slot \<open>2 * k + 1\<close>), reads
  \<^verbatim>\<open>uploaded\<close>, reports, and tests the event again (slot \<open>2 * k + 2\<close>).
\<close>

definition upload_iteration ::
  "world \<Rightarrow> int \<Rightarrow> pystr \<Rightarrow> nat \<Rightarrow> shared \<Rightarrow> int \<Rightarrow> py_exception + shared \<times> int \<times> event list" where
  "upload_iteration w file_size file_name k sh last_update =
     (let sh1 = run_worker (ul_schedule w (2 * k + 1)) sh;
          current_uploaded = uploaded sh1
      in if 0 < file_size
         then (case percent current_uploaded file_size of
                 Inl e \<Rightarrow> Inl e
               | Inr progress \<Rightarrow>
                   (case report (UPLOADING_MSG file_name) last_update progress of
                      Inl e \<Rightarrow> Inl e
                    | Inr (evs, last_update') \<Rightarrow>
                        Inr (run_worker (ul_schedule w (2 * k + 2)) sh1, last_update', evs)))
         else Inr (run_worker (ul_schedule w (2 * k + 2)) sh1, last_update, []))"

fun upload_loop ::
  "world \<Rightarrow> int \<Rightarrow> pystr \<Rightarrow> nat \<Rightarrow> nat \<Rightarrow> shared \<Rightarrow> int \<Rightarrow> event list \<Rightarrow> event list \<times> (shared \<times> nat) run" where
  "upload_loop w file_size file_name fuel k sh last_update evs =
     (if upload_complete sh then (evs, DONE (sh, fuel))
      else if fuel = 0 then (evs, WAITING)
      else (case upload_iteration w file_size file_name k sh last_update of
              Inl e \<Rightarrow> (evs, RAISED e)
            | Inr (sh', last_update', new) \<Rightarrow>
                upload_loop w file_size file_name (fuel - 1) (Suc k) sh' last_update' (evs @ new)))"

subsection \<open>The handler\<close>

text \<open>\<^verbatim>\<open>s.startswith(p)\<close> and \<^verbatim>\<open>sep.join(xs)\<close>.\<close>

definition startswith :: "pystr \<Rightarrow> pystr \<Rightarrow> bool" where
  "startswith s p \<longleftrightarrow> take (length p) s = p"

fun join :: "pystr \<Rightarrow> pystr list \<Rightarrow> pystr" where
  "join sep [] = []"
| "join sep [x] = x"
| "join sep (x # y # ys) = x @ sep @ join sep (y # ys)"

text \<open>
  \<^verbatim>\<open>upload_task.result()\<close>: \<^verbatim>\<open>upload_task\<close> is a \<^verbatim>\<open>threading.Thread\<close>, which
  has no attribute \<^verbatim>\<open>result\<close>, so the expression raises \<^verbatim>\<open>AttributeError\<close>.
\<close>

definition Thread_result :: "py_exception + response" where
  "Thread_result = Inl AttributeError"

text \<open>The lines after the upload loop, from the value of \<^verbatim>\<open>upload_task.result()\<close> on.\<close>

definition upload_result :: "pystr \<Rightarrow> py_exception + response \<Rightarrow> event list \<times> unit run" where
  "upload_result file_name r =
     (case r of
        Inl e \<Rightarrow> ([], RAISED e)
      | Inr upload_resp \<Rightarrow>
          (case status upload_resp of
             None \<Rightarrow> ([], RAISED (KeyError (lit ''status'')))
           | Some st \<Rightarrow>
               if st \<noteq> lit ''ok''
               then ([], RAISED (Exception (lit ''Gofile error: '' @
                       (case data_message upload_resp of
                          None \<Rightarrow> lit ''Unknown error''
                        | Some m \<Rightarrow> m))))
               else (case data_downloadPage upload_resp of
                       None \<Rightarrow> ([], RAISED (KeyError (lit ''downloadPage'')))
                     | Some download_url \<Rightarrow>
                         ([EDIT (SUCCESS_MSG file_name download_url)], DONE ()))))"

definition upload_phase ::
  "with_lock \<Rightarrow> world \<Rightarrow> pystr \<Rightarrow> nat \<Rightarrow> shared \<Rightarrow> event list \<Rightarrow> event list \<times> unit run" where
  "upload_phase lk w file_name fuel sh evs =
     (let evs1 = evs @ [EDIT STARTING_UPLOAD_MSG, GOFILE_GET_SERVERS]
      in case get_servers w of
           Inl m \<Rightarrow> (evs1, RAISED (LibraryError m))
         | Inr server \<Rightarrow>
             let upload_url = lit ''https://'' @ server @ lit ''.gofile.io/uploadFile''
             in (case getsize w of
                   Inl m \<Rightarrow> (evs1, RAISED (LibraryError m))
                 | Inr file_size \<Rightarrow>
                     let sh0 = sh\<lparr>uploaded := 0, upload_complete := False,
                                   pending := upload_thread lk (upload_reads w) (post w)\<rparr>;
                         evs2 = evs1 @ [START_UPLOAD_THREAD upload_url file_name]
                     in (case upload_loop w (int file_size) file_name fuel 0
                                 (run_worker (ul_schedule w 0) sh0) 0 evs2 of
                           (evs3, WAITING) \<Rightarrow> (evs3, WAITING)
                         | (evs3, RAISED e) \<Rightarrow> (evs3, RAISED e)
                         | (evs3, DONE _) \<Rightarrow>
                             (case upload_result file_name Thread_result of
                                (new, r) \<Rightarrow> (evs3 @ new, r)))))"

text \<open>The body of the handler's \<^verbatim>\<open>try\<close> block.\<close>

definition transfer :: "with_lock \<Rightarrow> world \<Rightarrow> pystr \<Rightarrow> nat \<Rightarrow> event list \<times> unit run" where
  "transfer lk w mega_link fuel =
     (let evs0 = [REPLY STARTING_DOWNLOAD_MSG, MEGA_GET_PUBLIC_FILE mega_link]
      in case mega_get_public_file w of
           Inl m \<Rightarrow> (evs0, RAISED (LibraryError m))
         | Inr (total_size, file_name) \<Rightarrow>
             let sh0 = \<lparr>downloaded = 0, download_complete = False,
                        uploaded = 0, upload_complete = False,
                        pending = download_thread lk (mega_download_url w)\<rparr>;
                 evs1 = evs0 @ [START_DOWNLOAD_THREAD mega_link]
             in (case download_loop w total_size file_name fuel 0
                         (run_worker (dl_schedule w 0) sh0) 0 evs1 of
                   (evs, WAITING) \<Rightarrow> (evs, WAITING)
                 | (evs, RAISED e) \<Rightarrow> (evs, RAISED e)
                 | (evs, DONE (sh, fuel')) \<Rightarrow>
                     if downloaded sh = - 1
                     then (evs, RAISED (Exception (lit ''Download failed'')))
                     else upload_phase lk w file_name fuel' sh evs))"

text \<open>
  \<^verbatim>\<open>handle_gofile\<close>. The handler catches every exception of the \<^verbatim>\<open>try\<close> block and
  shows it on the status message, so it either has returned or is still in one of its
  loops when the observation ends.
\<close>

datatype outcome = RETURNED | RUNNING

definition handle_gofile ::
  "with_lock \<Rightarrow> world \<Rightarrow> admin_state \<Rightarrow> int \<Rightarrow> pystr list \<Rightarrow> nat \<Rightarrow> event list \<times> outcome" where
  "handle_gofile lk w s user_id args fuel =
     (if user_id \<notin> ADMINS s then ([REPLY ACCESS_DENIED_MSG], RETURNED)
      else if args = [] then ([REPLY USAGE_MSG], RETURNED)
      else let mega_link = join (lit '' '') args
           in if \<not> (startswith mega_link (lit ''https://mega.nz/'')
                     \<or> startswith mega_link (lit ''https://mega.io/''))
              then ([REPLY INVALID_LINK_MSG], RETURNED)
              else (case transfer lk w mega_link fuel of
                      (evs, WAITING) \<Rightarrow> (evs, RUNNING)
                    | (evs, RAISED e) \<Rightarrow> (evs @ [EDIT (ERROR_MSG e)], RETURNED)
                    | (evs, DONE _) \<Rightarrow> (evs, RETURNED)))"

subsection \<open>Example runs\<close>

text \<open>
  The bar that the specification describes for a percent \<open>p\<close> and the width 20, inside
  the brackets that \<^verbatim>\<open>create_progress_bar\<close> adds; the traces below are written
  with it.
\<close>

definition renderBar :: "int \<Rightarrow> pystr" where
  "renderBar p =
     lit ''['' @ replicate (nat (20 * p div 100)) STAR
       @ replicate (20 - nat (20 * p div 100)) WHITE_STAR
       @ lit ''] '' @ str_int p @ lit ''%''"

text \<open>
  A transfer in which everything succeeds: the file has 1000 bytes, the poller finds 50
  more bytes in the directory at every look, and the download worker sets its event
  after the iteration that found all 1000.
\<close>

definition example_world :: world where
  "example_world =
     \<lparr>mega_get_public_file = Inr (1000, lit ''f.bin''),
      mega_download_url = None,
      dir_size = (\<lambda>k. min 1000 (50 * k)),
      dl_schedule = (\<lambda>slot. if slot = 63 then 1 else 0),
      get_servers = Inr (lit ''store1''),
      getsize = Inr 1000,
      upload_reads = [1000],
      post = Inr \<lparr>status = Some (lit ''ok''), data_message = None,
                  data_downloadPage = Some (lit ''https://gofile.io/d/XYZ'')\<rparr>,
      ul_schedule = (\<lambda>slot. if slot = 1 then 1 else 0)\<rparr>"

text \<open>
  The same transfer when \<^verbatim>\<open>mega.download_url\<close> raises while the handler sleeps in
  the second iteration of the download loop.
\<close>

definition failing_download_world :: world where
  "failing_download_world =
     example_world\<lparr>mega_download_url := Some (lit ''boom''),
                   dl_schedule := (\<lambda>slot. if slot = 4 then 2 else 0)\<rparr>"

text \<open>
  A transfer whose download is complete before the first look, and whose upload is
  answered with HTTP status 200 and a body that reports an error.
\<close>

definition upload_error_world :: world where
  "upload_error_world =
     example_world\<lparr>dl_schedule := (\<lambda>slot. if slot = 0 then 1 else 0),
                   post := Inr \<lparr>status = Some (lit ''error''),
                                data_message = Some (lit ''quota''),
                                data_downloadPage = None\<rparr>\<rparr>"

text \<open>
  A download that the poller sees three times only: the directory is empty, then holds
  70 bytes, then all 1000.
\<close>

definition coarse_world :: world where
  "coarse_world =
     example_world\<lparr>dir_size := (\<lambda>k. if k = 0 then 0 else if k = 1 then 70 else 1000),
                   dl_schedule := (\<lambda>slot. if slot = 9 then 1 else 0)\<rparr>"

section \<open>Evaluating the floating-point operations\<close>

lemma bitlen_pos_step: "0 < x \<Longrightarrow> bitlen x = bitlen (x div 2) + 1"
  by (subst compute_bitlen) simp

lemma bitlen_numeral_step: "bitlen (numeral n) = bitlen (numeral n div 2) + 1"
  by (rule bitlen_pos_step) simp

lemma bitlen_one: "bitlen 1 = 1"
  by (subst compute_bitlen) simp

lemma floor_rat_numeral: "\<lfloor>numeral a / numeral b :: rat\<rfloor> = numeral a div numeral b"
  by (metis floor_divide_of_int_eq of_int_numeral)

lemma floor_rat_neg_numeral:
  "\<lfloor>- (numeral a / numeral b) :: rat\<rfloor> = - numeral a div numeral b"
  by (metis divide_minus_left floor_divide_of_int_eq of_int_neg_numeral of_int_numeral)

lemmas float_eval =
  bitlen_numeral_step bitlen_one floor_rat_numeral floor_rat_neg_numeral ceiling_def
  round_double_def double_exponent_def floor_log2_def round_half_even_def Let_def
  py_truediv_def py_float_mul_def py_int_def DBL_OVERFLOW_def

section \<open>Rounding is monotone\<close>

lemma floor_log2_bounds:
  assumes "0 < x"
  shows "2 powi floor_log2 x \<le> x" and "x < 2 powi (floor_log2 x + 1)"
proof -
  have "2 powi floor_log2 x \<le> x \<and> x < 2 powi (floor_log2 x + 1)"
  proof (cases "1 \<le> x")
    case True
    define n where "n = \<lfloor>x\<rfloor>"
    define b where "b = bitlen n"
    have n: "0 < n" using True by (simp add: n_def)
    from bitlen_bounds [OF n] have bb: "2 ^ nat (b - 1) \<le> n" "n < 2 ^ nat b"
      by (simp_all add: b_def)
    have b1: "1 \<le> b" using n bitlen_eq_zero_iff [of n] bitlen_nonneg [of n] by (simp add: b_def)
    have fl: "floor_log2 x = b - 1" using True by (simp add: floor_log2_def b_def n_def)
    have "(2::rat) powi (b - 1) = of_int (2 ^ nat (b - 1))"
      using b1 by (simp add: power_int_nonneg_exp)
    also have "\<dots> \<le> of_int n" using bb(1) by (simp only: of_int_le_iff)
    also have "\<dots> \<le> x" by (simp add: n_def)
    finally have lo: "2 powi (b - 1) \<le> x" .
    have "x < of_int (n + 1)" using floor_correct [of x] by (simp add: n_def)
    also have "\<dots> \<le> of_int (2 ^ nat b)" using bb(2) by (simp only: of_int_le_iff)
    also have "\<dots> = (2::rat) powi b" using b1 by (simp add: power_int_nonneg_exp)
    finally have "x < 2 powi b" .
    with lo fl show ?thesis by simp
  next
    case False
    define y where "y = 1 / x"
    define n where "n = \<lceil>y\<rceil> - 1"
    define b where "b = bitlen n"
    have y1: "1 < y" using False assms by (simp add: y_def)
    then have n: "0 < n" by (simp add: n_def less_ceiling_iff)
    from bitlen_bounds [OF n] have bb: "2 ^ nat (b - 1) \<le> n" "n < 2 ^ nat b"
      by (simp_all add: b_def)
    have b1: "1 \<le> b" using n bitlen_eq_zero_iff [of n] bitlen_nonneg [of n] by (simp add: b_def)
    have fl: "floor_log2 x = - b" using False by (simp add: floor_log2_def b_def n_def y_def)
    have "y \<le> of_int (n + 1)" using ceiling_correct [of y] by (simp add: n_def)
    also have "\<dots> \<le> of_int (2 ^ nat b)" using bb(2) by (simp only: of_int_le_iff)
    also have "\<dots> = (2::rat) powi b" using b1 by (simp add: power_int_nonneg_exp)
    finally have "y \<le> 2 powi b" .
    moreover have "0 < (2::rat) powi b" by (simp add: zero_less_power_int)
    ultimately have "1 / 2 powi b \<le> x"
      using assms by (simp add: y_def field_simps)
    then have lo: "2 powi (- b) \<le> x" by (simp only: power_int_minus_divide)
    have "(2::rat) powi (b - 1) = of_int (2 ^ nat (b - 1))"
      using b1 by (simp add: power_int_nonneg_exp)
    also have "\<dots> \<le> of_int n" using bb(1) by (simp only: of_int_le_iff)
    also have "\<dots> < y" using ceiling_correct [of y] by (simp add: n_def)
    finally have "2 powi (b - 1) < y" .
    moreover have "0 < (2::rat) powi (b - 1)" by (simp add: zero_less_power_int)
    ultimately have "x < 1 / 2 powi (b - 1)"
      using assms by (simp add: y_def field_simps)
    then have "x < 2 powi (- (b - 1))" by (simp only: power_int_minus_divide)
    with lo fl show ?thesis by simp
  qed
  then show "2 powi floor_log2 x \<le> x" and "x < 2 powi (floor_log2 x + 1)" by simp_all
qed

lemma floor_log2_mono:
  assumes "0 < x" "x \<le> y"
  shows "floor_log2 x \<le> floor_log2 y"
proof (rule ccontr)
  assume "\<not> floor_log2 x \<le> floor_log2 y"
  then have "floor_log2 y + 1 \<le> floor_log2 x" by simp
  then have "(2::rat) powi (floor_log2 y + 1) \<le> 2 powi floor_log2 x"
    by (intro power_int_increasing) simp_all
  also have "\<dots> \<le> x" using assms(1) by (rule floor_log2_bounds)
  also have "\<dots> \<le> y" by fact
  also have "\<dots> < 2 powi (floor_log2 y + 1)"
    using assms by (intro floor_log2_bounds) simp
  finally show False by simp
qed

lemma round_half_even_cases:
  "round_half_even a = \<lfloor>a\<rfloor> \<or> round_half_even a = \<lfloor>a\<rfloor> + 1"
  by (simp add: round_half_even_def Let_def)

lemma round_half_even_of_int: "round_half_even (of_int n) = n"
  by (simp add: round_half_even_def Let_def)

lemma round_half_even_mono:
  assumes "a \<le> b"
  shows "round_half_even a \<le> round_half_even b"
proof (cases "\<lfloor>a\<rfloor> < \<lfloor>b\<rfloor>")
  case True
  have "round_half_even a \<le> \<lfloor>a\<rfloor> + 1" using round_half_even_cases [of a] by auto
  also have "\<dots> \<le> \<lfloor>b\<rfloor>" using True by simp
  also have "\<dots> \<le> round_half_even b" using round_half_even_cases [of b] by auto
  finally show ?thesis .
next
  case False
  with assms have eq: "\<lfloor>a\<rfloor> = \<lfloor>b\<rfloor>" using floor_mono [of a b] by simp
  have "a - of_int \<lfloor>b\<rfloor> \<le> b - of_int \<lfloor>b\<rfloor>" using assms by simp
  then show ?thesis
    by (auto simp: round_half_even_def Let_def eq)
qed

lemma round_half_even_ge: "of_int n \<le> a \<Longrightarrow> n \<le> round_half_even a"
  using round_half_even_mono [of "of_int n" a] by (simp add: round_half_even_of_int)

lemma round_half_even_le: "a \<le> of_int n \<Longrightarrow> round_half_even a \<le> n"
  using round_half_even_mono [of a "of_int n"] by (simp add: round_half_even_of_int)

lemma round_double_pos:
  "0 < x \<Longrightarrow> round_double x =
     of_int (round_half_even (x / 2 powi double_exponent x)) * 2 powi double_exponent x"
  by (simp add: round_double_def Let_def)

lemma round_double_nonneg:
  assumes "0 \<le> x"
  shows "0 \<le> round_double x"
proof (cases "x = 0")
  case True
  then show ?thesis by (simp add: round_double_def)
next
  case False
  with assms have x: "0 < x" by simp
  have "0 \<le> x / 2 powi double_exponent x" using x by (simp add: zero_less_power_int)
  then have "0 \<le> round_half_even (x / 2 powi double_exponent x)"
    using round_half_even_ge [of 0] by simp
  then show ?thesis
    unfolding round_double_pos [OF x] by (simp add: zero_less_power_int)
qed

lemma round_double_mono:
  assumes "0 \<le> x" "x \<le> y"
  shows "round_double x \<le> round_double y"
proof (cases "x = 0")
  case True
  then show ?thesis using round_double_nonneg [of y] assms by (simp add: round_double_def)
next
  case False
  with assms have x: "0 < x" and y: "0 < y" by simp_all
  define ex where "ex = double_exponent x"
  define ey where "ey = double_exponent y"
  have exy: "ex \<le> ey"
    using floor_log2_mono [OF x assms(2)] by (simp add: ex_def ey_def double_exponent_def)
  have px: "0 < (2::rat) powi ex" and py: "0 < (2::rat) powi ey"
    by (simp_all add: zero_less_power_int)
  show ?thesis
  proof (cases "ex = ey")
    case True
    have "x / 2 powi ey \<le> y / 2 powi ey" using assms(2) py by (simp add: divide_right_mono)
    then have "round_half_even (x / 2 powi ey) \<le> round_half_even (y / 2 powi ey)"
      by (rule round_half_even_mono)
    then have "rat_of_int (round_half_even (x / 2 powi ey)) * 2 powi ey
        \<le> rat_of_int (round_half_even (y / 2 powi ey)) * 2 powi ey"
      using py by simp
    then show ?thesis
      unfolding round_double_pos [OF x] round_double_pos [OF y] using True
      by (simp add: ex_def ey_def)
  next
    case False
    with exy have lt: "ex + 1 \<le> ey" by simp
    then have "- 1074 < ey" by (simp add: ex_def double_exponent_def)
    then have ey: "ey = floor_log2 y - 52" by (simp add: ey_def double_exponent_def)
    have "floor_log2 x - 52 \<le> ex" by (simp add: ex_def double_exponent_def)
    then have "floor_log2 x + 1 \<le> ex + 53" by simp
    have "x < 2 powi (floor_log2 x + 1)" using x by (rule floor_log2_bounds)
    also have "\<dots> \<le> 2 powi (ex + 53)"
      using \<open>floor_log2 x + 1 \<le> ex + 53\<close> by (intro power_int_increasing) simp_all
    also have "\<dots> = 2 ^ 53 * 2 powi ex" by (simp add: power_int_add)
    finally have "x / 2 powi ex \<le> of_int (2 ^ 53)" using px by (simp add: field_simps)
    then have "round_half_even (x / 2 powi ex) \<le> 2 ^ 53" by (rule round_half_even_le)
    then have "rat_of_int (round_half_even (x / 2 powi ex)) \<le> 2 ^ 53"
      by (metis of_int_le_iff of_int_numeral of_int_power)
    then have "rat_of_int (round_half_even (x / 2 powi ex)) * 2 powi ex \<le> 2 ^ 53 * 2 powi ex"
      using px by simp
    also have "\<dots> = 2 powi (ex + 53)" by (simp add: power_int_add)
    also have "\<dots> \<le> 2 powi (ey + 52)"
      using lt by (intro power_int_increasing) simp_all
    also have "\<dots> = 2 ^ 52 * 2 powi ey" by (simp add: power_int_add)
    finally have left: "round_double x \<le> 2 ^ 52 * 2 powi ey"
      unfolding round_double_pos [OF x] by (simp add: ex_def)
    have "2 powi (ey + 52) \<le> y" using floor_log2_bounds(1) [OF y] by (simp add: ey)
    then have "2 ^ 52 * 2 powi ey \<le> y" by (simp add: power_int_add)
    then have "of_int (2 ^ 52) \<le> y / 2 powi ey" using py by (simp add: field_simps)
    then have "2 ^ 52 \<le> round_half_even (y / 2 powi ey)" by (rule round_half_even_ge)
    then have "2 ^ 52 \<le> rat_of_int (round_half_even (y / 2 powi ey))"
      by (metis of_int_le_iff of_int_numeral of_int_power)
    then have "2 ^ 52 * 2 powi ey \<le> rat_of_int (round_half_even (y / 2 powi ey)) * 2 powi ey"
      using py by simp
    then have "2 ^ 52 * 2 powi ey \<le> round_double y"
      unfolding round_double_pos [OF y] by (simp add: ey_def)
    with left show ?thesis by simp
  qed
qed

lemma round_double_one: "round_double 1 = 1"
  by (simp add: float_eval)

lemma round_double_hundred: "round_double 100 = 100"
  by (simp add: float_eval)

lemma percent_value:
  assumes "0 \<le> d" "d \<le> t" "0 < t"
  shows "percent d t = Inr \<lfloor>round_double (round_double (of_int d / of_int t) * 100)\<rfloor>"
    and "0 \<le> round_double (round_double (of_int d / of_int t) * 100)"
    and "round_double (round_double (of_int d / of_int t) * 100) \<le> 100"
proof -
  define q where "q = round_double (of_int d / of_int t)"
  define m where "m = round_double (q * 100)"
  have frac: "0 \<le> rat_of_int d / of_int t" "rat_of_int d / of_int t \<le> 1"
    using assms by simp_all
  have q0: "0 \<le> q" unfolding q_def using frac(1) by (rule round_double_nonneg)
  have q1: "q \<le> 1"
    using round_double_mono [OF frac] by (simp add: q_def round_double_one)
  have m0: "0 \<le> m" unfolding m_def using q0 by (intro round_double_nonneg) simp
  have "q * 100 \<le> 100" using q1 by simp
  with q0 have m1: "m \<le> 100"
    using round_double_mono [of "q * 100" 100] by (simp add: m_def round_double_hundred)
  have big: "(100::rat) < DBL_OVERFLOW" by (simp add: DBL_OVERFLOW_def)
  have div: "py_truediv d t = Inr q"
    using assms q0 q1 big by (simp add: py_truediv_def Let_def q_def [symmetric])
  have int: "py_int m = Inr \<lfloor>m\<rfloor>" using m0 m1 big by (simp add: py_int_def)
  have "\<lfloor>m\<rfloor> \<le> 100" using m1 by (simp add: floor_le_iff)
  then show "percent d t = Inr \<lfloor>round_double (round_double (of_int d / of_int t) * 100)\<rfloor>"
    using div int by (simp add: percent_def py_float_mul_def m_def q_def)
  show "0 \<le> round_double (round_double (of_int d / of_int t) * 100)"
    using m0 by (simp add: m_def q_def)
  show "round_double (round_double (of_int d / of_int t) * 100) \<le> 100"
    using m1 by (simp add: m_def q_def)
qed

lemma percent_in_range:
  assumes "0 \<le> d" "d \<le> t" "0 < t"
  shows "\<exists>p. percent d t = Inr p \<and> 0 \<le> p \<and> p \<le> 100"
  using percent_value [OF assms] by (auto simp: floor_le_iff)

lemma percent_mono:
  assumes "0 \<le> d" "d \<le> d'" "d' \<le> t" "0 < t"
    and "percent d t = Inr p" "percent d' t = Inr p'"
  shows "p \<le> p'"
proof -
  have "rat_of_int d / of_int t \<le> of_int d' / of_int t"
    using assms(2,4) by (simp add: divide_right_mono)
  moreover have "0 \<le> rat_of_int d / of_int t" using assms(1,4) by simp
  ultimately have "round_double (of_int d / of_int t) \<le> round_double (of_int d' / of_int t)"
    by (intro round_double_mono)
  moreover have "0 \<le> round_double (rat_of_int d / of_int t)"
    using assms(1,4) by (intro round_double_nonneg) simp
  ultimately have "round_double (round_double (of_int d / of_int t) * 100)
      \<le> round_double (round_double (of_int d' / of_int t) * 100)"
    by (intro round_double_mono) simp_all
  then have "\<lfloor>round_double (round_double (of_int d / of_int t) * 100)\<rfloor>
      \<le> \<lfloor>round_double (round_double (of_int d' / of_int t) * 100)\<rfloor>"
    by (rule floor_mono)
  moreover have "0 \<le> d'" "d \<le> t" using assms by simp_all
  ultimately show ?thesis
    using percent_value(1) [OF assms(1) \<open>d \<le> t\<close> assms(4)]
      percent_value(1) [OF \<open>0 \<le> d'\<close> assms(3,4)] assms(5,6) by simp
qed

section \<open>Properties of the admin store\<close>

lemma admin_inv_initial: "admin_inv m (initial_state m)"
  by (simp add: admin_inv_def initial_state_def)

lemma admin_inv_add: "admin_inv m s \<Longrightarrow> admin_inv m (snd (add_admin m u args s))"
  by (auto simp: admin_inv_def split: list.splits option.splits)

lemma admin_inv_remove: "admin_inv m s \<Longrightarrow> admin_inv m (snd (remove_admin m u args s))"
  by (auto simp: admin_inv_def Let_def split: list.splits option.splits)

lemma admin_inv_run_command: "admin_inv m s \<Longrightarrow> admin_inv m (run_command m c s)"
  by (cases c) (simp_all only: run_command.simps admin_inv_add admin_inv_remove)

lemma admin_inv_run_commands: "admin_inv m s \<Longrightarrow> admin_inv m (run_commands m cs s)"
  by (induction cs arbitrary: s) (simp_all add: admin_inv_run_command del: run_command.simps)

section \<open>Properties of the workers and the polling loops\<close>

declare run_worker.simps [simp del] download_loop.simps [simp del] upload_loop.simps [simp del]

lemma do_step_download_complete:
  "a \<noteq> SET_DOWNLOAD_COMPLETE \<Longrightarrow> download_complete (do_step a sh) = download_complete sh"
  by (cases a) simp_all

lemma do_step_upload_complete:
  "a \<noteq> SET_UPLOAD_COMPLETE \<Longrightarrow> upload_complete (do_step a sh) = upload_complete sh"
  by (cases a) simp_all

lemma do_step_pending: "pending (do_step a sh) = pending sh"
  by (cases a) simp_all

lemma run_worker_download_waiting:
  "SET_DOWNLOAD_COMPLETE \<notin> set (pending sh) \<Longrightarrow> \<not> download_complete sh \<Longrightarrow>
     SET_DOWNLOAD_COMPLETE \<notin> set (pending (run_worker n sh)) \<and> \<not> download_complete (run_worker n sh)"
proof (induction n sh rule: run_worker.induct)
  case (1 n sh)
  show ?case
  proof (cases "n = 0")
    case True
    with "1.prems" show ?thesis by (simp add: run_worker.simps)
  next
    case n: False
    show ?thesis
    proof (cases "pending sh")
      case Nil
      with n "1.prems" show ?thesis by (simp add: run_worker.simps)
    next
      case (Cons a rest)
      let ?sh = "do_step a (sh\<lparr>pending := rest\<rparr>)"
      from Cons "1.prems" have a: "a \<noteq> SET_DOWNLOAD_COMPLETE" by auto
      have "SET_DOWNLOAD_COMPLETE \<notin> set (pending ?sh)"
        using Cons "1.prems" by (simp add: do_step_pending)
      moreover have "\<not> download_complete ?sh"
        using a "1.prems" by (simp add: do_step_download_complete)
      ultimately have "SET_DOWNLOAD_COMPLETE \<notin> set (pending (run_worker (n - 1) ?sh))
          \<and> \<not> download_complete (run_worker (n - 1) ?sh)"
        using "1.IH" [OF n Cons] by blast
      moreover have "run_worker n sh = run_worker (n - 1) ?sh"
        using n Cons by (subst run_worker.simps) simp
      ultimately show ?thesis by simp
    qed
  qed
qed

lemma run_worker_upload_waiting:
  "SET_UPLOAD_COMPLETE \<notin> set (pending sh) \<Longrightarrow> \<not> upload_complete sh \<Longrightarrow>
     SET_UPLOAD_COMPLETE \<notin> set (pending (run_worker n sh)) \<and> \<not> upload_complete (run_worker n sh)"
proof (induction n sh rule: run_worker.induct)
  case (1 n sh)
  show ?case
  proof (cases "n = 0")
    case True
    with "1.prems" show ?thesis by (simp add: run_worker.simps)
  next
    case n: False
    show ?thesis
    proof (cases "pending sh")
      case Nil
      with n "1.prems" show ?thesis by (simp add: run_worker.simps)
    next
      case (Cons a rest)
      let ?sh = "do_step a (sh\<lparr>pending := rest\<rparr>)"
      from Cons "1.prems" have a: "a \<noteq> SET_UPLOAD_COMPLETE" by auto
      have "SET_UPLOAD_COMPLETE \<notin> set (pending ?sh)"
        using Cons "1.prems" by (simp add: do_step_pending)
      moreover have "\<not> upload_complete ?sh"
        using a "1.prems" by (simp add: do_step_upload_complete)
      ultimately have "SET_UPLOAD_COMPLETE \<notin> set (pending (run_worker (n - 1) ?sh))
          \<and> \<not> upload_complete (run_worker (n - 1) ?sh)"
        using "1.IH" [OF n Cons] by blast
      moreover have "run_worker n sh = run_worker (n - 1) ?sh"
        using n Cons by (subst run_worker.simps) simp
      ultimately show ?thesis by simp
    qed
  qed
qed

lemma py_truediv_raises: "py_truediv a b = Inl e \<Longrightarrow> e = ZeroDivisionError \<or> e = OverflowError"
  by (auto simp: py_truediv_def Let_def split: if_splits)

lemma py_int_raises: "py_int x = Inl e \<Longrightarrow> e = OverflowError"
  by (auto simp: py_int_def split: if_splits)

lemma percent_raises: "percent n t = Inl e \<Longrightarrow> e = ZeroDivisionError \<or> e = OverflowError"
  by (auto simp: percent_def split: sum.splits dest: py_truediv_raises py_int_raises)

lemma create_progress_bar_raises:
  "create_progress_bar p width = Inl e \<Longrightarrow> e = ZeroDivisionError \<or> e = OverflowError"
  by (auto simp: create_progress_bar_def Let_def split: sum.splits
      dest: py_truediv_raises py_int_raises)

lemma report_raises: "report msg lu p = Inl e \<Longrightarrow> e = ZeroDivisionError \<or> e = OverflowError"
  by (auto simp: report_def split: if_splits sum.splits dest: create_progress_bar_raises)

lemma report_events:
  "report msg lu p = Inr (evs, lu') \<Longrightarrow> \<forall>x \<in> set evs. \<exists>bar. x = EDIT (msg bar)"
  by (auto simp: report_def split: if_splits sum.splits)

lemma download_iteration_raises:
  "download_iteration w t name k sh lu = Inl e \<Longrightarrow> e = ZeroDivisionError \<or> e = OverflowError"
  by (auto simp: download_iteration_def Let_def split: if_splits sum.splits prod.splits
      dest: percent_raises report_raises)

lemma download_iteration_events:
  "download_iteration w t name k sh lu = Inr (sh', lu', new) \<Longrightarrow>
     \<forall>x \<in> set new. \<exists>bar. x = EDIT (DOWNLOADING_MSG name bar)"
  by (auto simp: download_iteration_def Let_def split: if_splits sum.splits prod.splits
      dest: report_events)

lemma download_loop_trace:
  "download_loop w t name fuel k sh lu evs = (evs', r) \<Longrightarrow>
     (\<exists>new. evs' = evs @ new \<and> (\<forall>x \<in> set new. \<exists>bar. x = EDIT (DOWNLOADING_MSG name bar)))
     \<and> (\<forall>e. r = RAISED e \<longrightarrow> e = ZeroDivisionError \<or> e = OverflowError)"
proof (induction w t name fuel k sh lu evs arbitrary: evs' r rule: download_loop.induct)
  case (1 w t name fuel k sh lu evs)
  show ?case
  proof (cases "download_complete sh \<or> fuel = 0")
    case True
    with "1.prems" show ?thesis
      by (subst (asm) download_loop.simps) (auto split: if_splits)
  next
    case False
    show ?thesis
    proof (cases "download_iteration w t name k sh lu")
      case (Inl e)
      with False "1.prems" have "evs' = evs" "r = RAISED e"
        by (subst (asm) download_loop.simps, simp)+
      with download_iteration_raises [OF Inl] show ?thesis by simp
    next
      case (Inr x)
      obtain sh' lu' new where x: "x = (sh', lu', new)" by (cases x) auto
      from False Inr x "1.prems"
      have rec: "download_loop w t name (fuel - 1) (Suc k) sh' lu' (evs @ new) = (evs', r)"
        by (subst (asm) download_loop.simps) simp
      from False have "\<not> download_complete sh" "fuel \<noteq> 0" by simp_all
      from "1.IH" [OF this Inr x [symmetric] refl rec]
      obtain new' where "evs' = (evs @ new) @ new'"
        "\<forall>x \<in> set new'. \<exists>bar. x = EDIT (DOWNLOADING_MSG name bar)"
        "\<forall>e. r = RAISED e \<longrightarrow> e = ZeroDivisionError \<or> e = OverflowError" by blast
      moreover have "\<forall>x \<in> set new. \<exists>bar. x = EDIT (DOWNLOADING_MSG name bar)"
        using download_iteration_events Inr x by blast
      ultimately show ?thesis by auto
    qed
  qed
qed

lemma download_iteration_waiting:
  assumes "download_iteration w t name k sh lu = Inr (sh', lu', new)"
    and "SET_DOWNLOAD_COMPLETE \<notin> set (pending sh)" and "\<not> download_complete sh"
  shows "SET_DOWNLOAD_COMPLETE \<notin> set (pending sh') \<and> \<not> download_complete sh'"
proof -
  let ?sh1 = "run_worker (dl_schedule w (3 * k + 1)) sh"
  let ?sh2 = "run_worker (dl_schedule w (3 * k + 2)) (?sh1\<lparr>downloaded := int (dir_size w k)\<rparr>)"
  have 1: "SET_DOWNLOAD_COMPLETE \<notin> set (pending ?sh1) \<and> \<not> download_complete ?sh1"
    using assms(2,3) by (rule run_worker_download_waiting)
  have 2: "SET_DOWNLOAD_COMPLETE \<notin> set (pending ?sh2) \<and> \<not> download_complete ?sh2"
    by (rule run_worker_download_waiting) (use 1 in simp_all)
  have "sh' = run_worker (dl_schedule w (3 * k + 3)) ?sh2"
    using assms(1)
    by (auto simp: download_iteration_def Let_def split: if_splits sum.splits prod.splits)
  then show ?thesis
    using run_worker_download_waiting [of ?sh2 "dl_schedule w (3 * k + 3)"] 2 by simp
qed

lemma download_loop_waiting:
  "SET_DOWNLOAD_COMPLETE \<notin> set (pending sh) \<Longrightarrow> \<not> download_complete sh \<Longrightarrow>
     snd (download_loop w t name fuel k sh lu evs) \<noteq> DONE x"
proof (induction w t name fuel k sh lu evs rule: download_loop.induct)
  case (1 w t name fuel k sh lu evs)
  show ?case
  proof (cases "fuel = 0")
    case True
    with "1.prems" show ?thesis by (subst download_loop.simps) simp
  next
    case False
    show ?thesis
    proof (cases "download_iteration w t name k sh lu")
      case (Inl e)
      with False "1.prems" show ?thesis by (subst download_loop.simps) simp
    next
      case (Inr y)
      obtain sh' lu' new where y: "y = (sh', lu', new)" by (cases y) auto
      have inv: "SET_DOWNLOAD_COMPLETE \<notin> set (pending sh') \<and> \<not> download_complete sh'"
        using download_iteration_waiting [OF Inr [unfolded y]] "1.prems" by blast
      have "snd (download_loop w t name (fuel - 1) (Suc k) sh' lu' (evs @ new)) \<noteq> DONE x"
        using "1.IH" [OF "1.prems"(2) False Inr y [symmetric] refl] inv by blast
      moreover have "download_loop w t name fuel k sh lu evs
          = download_loop w t name (fuel - 1) (Suc k) sh' lu' (evs @ new)"
        using False "1.prems" Inr y by (subst download_loop.simps) simp
      ultimately show ?thesis by simp
    qed
  qed
qed

lemma upload_iteration_raises:
  "upload_iteration w t name k sh lu = Inl e \<Longrightarrow> e = ZeroDivisionError \<or> e = OverflowError"
  by (auto simp: upload_iteration_def Let_def split: if_splits sum.splits prod.splits
      dest: percent_raises report_raises)

lemma upload_iteration_events:
  "upload_iteration w t name k sh lu = Inr (sh', lu', new) \<Longrightarrow>
     \<forall>x \<in> set new. \<exists>bar. x = EDIT (UPLOADING_MSG name bar)"
  by (auto simp: upload_iteration_def Let_def split: if_splits sum.splits prod.splits
      dest: report_events)

lemma upload_loop_trace:
  "upload_loop w t name fuel k sh lu evs = (evs', r) \<Longrightarrow>
     (\<exists>new. evs' = evs @ new \<and> (\<forall>x \<in> set new. \<exists>bar. x = EDIT (UPLOADING_MSG name bar)))
     \<and> (\<forall>e. r = RAISED e \<longrightarrow> e = ZeroDivisionError \<or> e = OverflowError)"
proof (induction w t name fuel k sh lu evs arbitrary: evs' r rule: upload_loop.induct)
  case (1 w t name fuel k sh lu evs)
  show ?case
  proof (cases "upload_complete sh \<or> fuel = 0")
    case True
    with "1.prems" show ?thesis
      by (subst (asm) upload_loop.simps) (auto split: if_splits)
  next
    case False
    show ?thesis
    proof (cases "upload_iteration w t name k sh lu")
      case (Inl e)
      with False "1.prems" have "evs' = evs" "r = RAISED e"
        by (subst (asm) upload_loop.simps, simp)+
      with upload_iteration_raises [OF Inl] show ?thesis by simp
    next
      case (Inr x)
      obtain sh' lu' new where x: "x = (sh', lu', new)" by (cases x) auto
      from False Inr x "1.prems"
      have rec: "upload_loop w t name (fuel - 1) (Suc k) sh' lu' (evs @ new) = (evs', r)"
        by (subst (asm) upload_loop.simps) simp
      from False have "\<not> upload_complete sh" "fuel \<noteq> 0" by simp_all
      from "1.IH" [OF this Inr x [symmetric] refl rec]
      obtain new' where "evs' = (evs @ new) @ new'"
        "\<forall>x \<in> set new'. \<exists>bar. x = EDIT (UPLOADING_MSG name bar)"
        "\<forall>e. r = RAISED e \<longrightarrow> e = ZeroDivisionError \<or> e = OverflowError" by blast
      moreover have "\<forall>x \<in> set new. \<exists>bar. x = EDIT (UPLOADING_MSG name bar)"
        using upload_iteration_events Inr x by blast
      ultimately show ?thesis by auto
    qed
  qed
qed

lemma upload_iteration_waiting:
  assumes "upload_iteration w t name k sh lu = Inr (sh', lu', new)"
    and "SET_UPLOAD_COMPLETE \<notin> set (pending sh)" and "\<not> upload_complete sh"
  shows "SET_UPLOAD_COMPLETE \<notin> set (pending sh') \<and> \<not> upload_complete sh'"
proof -
  let ?sh1 = "run_worker (ul_schedule w (2 * k + 1)) sh"
  have 1: "SET_UPLOAD_COMPLETE \<notin> set (pending ?sh1) \<and> \<not> upload_complete ?sh1"
    using assms(2,3) by (rule run_worker_upload_waiting)
  have "sh' = run_worker (ul_schedule w (2 * k + 2)) ?sh1"
    using assms(1)
    by (auto simp: upload_iteration_def Let_def split: if_splits sum.splits prod.splits)
  then show ?thesis
    using run_worker_upload_waiting [of ?sh1 "ul_schedule w (2 * k + 2)"] 1 by simp
qed

lemma upload_loop_waiting:
  "SET_UPLOAD_COMPLETE \<notin> set (pending sh) \<Longrightarrow> \<not> upload_complete sh \<Longrightarrow>
     snd (upload_loop w t name fuel k sh lu evs) \<noteq> DONE x"
proof (induction w t name fuel k sh lu evs rule: upload_loop.induct)
  case (1 w t name fuel k sh lu evs)
  show ?case
  proof (cases "fuel = 0")
    case True
    with "1.prems" show ?thesis by (subst upload_loop.simps) simp
  next
    case False
    show ?thesis
    proof (cases "upload_iteration w t name k sh lu")
      case (Inl e)
      with False "1.prems" show ?thesis by (subst upload_loop.simps) simp
    next
      case (Inr y)
      obtain sh' lu' new where y: "y = (sh', lu', new)" by (cases y) auto
      have inv: "SET_UPLOAD_COMPLETE \<notin> set (pending sh') \<and> \<not> upload_complete sh'"
        using upload_iteration_waiting [OF Inr [unfolded y]] "1.prems" by blast
      have "snd (upload_loop w t name (fuel - 1) (Suc k) sh' lu' (evs @ new)) \<noteq> DONE x"
        using "1.IH" [OF "1.prems"(2) False Inr y [symmetric] refl] inv by blast
      moreover have "upload_loop w t name fuel k sh lu evs
          = upload_loop w t name (fuel - 1) (Suc k) sh' lu' (evs @ new)"
        using False "1.prems" Inr y by (subst upload_loop.simps) simp
      ultimately show ?thesis by simp
    qed
  qed
qed

lemma read_steps_no_complete: "SET_UPLOAD_COMPLETE \<notin> set (read_steps n cs)"
  by (induction cs arbitrary: n) simp_all

lemma upload_thread_complete:
  "SET_UPLOAD_COMPLETE \<in> set (upload_thread lk reads outcome)
     \<longleftrightarrow> lk = ENTERED \<and> (\<exists>m. outcome = Inl m)"
  by (auto simp: upload_thread_def read_steps_no_complete split: sum.splits with_lock.splits)

section \<open>Properties of the handler\<close>

lemma startswith_simps:
  "startswith s [] = True"
  "startswith [] (y # ys) = False"
  "startswith (x # xs) (y # ys) = (x = y \<and> startswith xs ys)"
  by (auto simp: startswith_def)

lemma upload_result_Thread_result:
  "upload_result name Thread_result = ([], RAISED AttributeError)"
  by (simp add: upload_result_def Thread_result_def)

lemma upload_phase_trace:
  assumes "upload_phase lk w name fuel sh evs = (evs', r)"
  shows "(\<exists>new. evs' = evs @ new
            \<and> (\<forall>x \<in> set new. (\<forall>n u. x \<noteq> EDIT (SUCCESS_MSG n u)) \<and> (\<forall>e. x \<noteq> EDIT (ERROR_MSG e))))
         \<and> (\<forall>m. r \<noteq> RAISED (Exception m)) \<and> r \<noteq> DONE ()"
proof (cases "get_servers w")
  case (Inl m)
  with assms show ?thesis by (auto simp: upload_phase_def)
next
  case server: (Inr server)
  show ?thesis
  proof (cases "getsize w")
    case (Inl m)
    with server assms show ?thesis by (auto simp: upload_phase_def)
  next
    case (Inr file_size)
    let ?evs2 = "(evs @ [EDIT STARTING_UPLOAD_MSG, GOFILE_GET_SERVERS]) @
        [START_UPLOAD_THREAD (lit ''https://'' @ server @ lit ''.gofile.io/uploadFile'') name]"
    let ?sh0 = "sh\<lparr>uploaded := 0, upload_complete := False,
                  pending := upload_thread lk (upload_reads w) (post w)\<rparr>"
    obtain evs3 r3 where ul: "upload_loop w (int file_size) name fuel 0
        (run_worker (ul_schedule w 0) ?sh0) 0 ?evs2 = (evs3, r3)"
      by (cases "upload_loop w (int file_size) name fuel 0
        (run_worker (ul_schedule w 0) ?sh0) 0 ?evs2")
    from upload_loop_trace [OF ul] obtain new where new: "evs3 = ?evs2 @ new"
      "\<forall>x \<in> set new. \<exists>bar. x = EDIT (UPLOADING_MSG name bar)"
      "\<forall>e. r3 = RAISED e \<longrightarrow> e = ZeroDivisionError \<or> e = OverflowError" by blast
    have res: "evs' = evs3 \<and> (r = WAITING \<or> (\<exists>e. r = RAISED e \<and> r3 = RAISED e)
        \<or> r = RAISED AttributeError)"
      using assms server Inr ul
      by (cases r3) (auto simp: upload_phase_def Let_def upload_result_Thread_result)
    have "\<forall>x \<in> set ([EDIT STARTING_UPLOAD_MSG, GOFILE_GET_SERVERS,
          START_UPLOAD_THREAD (lit ''https://'' @ server @ lit ''.gofile.io/uploadFile'') name] @ new).
        (\<forall>n u. x \<noteq> EDIT (SUCCESS_MSG n u)) \<and> (\<forall>e. x \<noteq> EDIT (ERROR_MSG e))"
      using new(2) by auto
    moreover have "evs' = evs @ ([EDIT STARTING_UPLOAD_MSG, GOFILE_GET_SERVERS,
          START_UPLOAD_THREAD (lit ''https://'' @ server @ lit ''.gofile.io/uploadFile'') name] @ new)"
      using res new(1) by simp
    moreover have "(\<forall>m. r \<noteq> RAISED (Exception m)) \<and> r \<noteq> DONE ()"
      using res new(3) by auto
    ultimately show ?thesis by blast
  qed
qed

lemma transfer_trace:
  assumes "transfer lk w link fuel = (evs', r)"
  shows "(\<exists>new. evs' = [REPLY STARTING_DOWNLOAD_MSG, MEGA_GET_PUBLIC_FILE link] @ new
            \<and> (\<forall>x \<in> set new. (\<forall>n u. x \<noteq> EDIT (SUCCESS_MSG n u)) \<and> (\<forall>e. x \<noteq> EDIT (ERROR_MSG e))))
         \<and> (\<forall>m. r = RAISED (Exception m) \<longrightarrow> m = lit ''Download failed'') \<and> r \<noteq> DONE ()"
proof (cases "mega_get_public_file w")
  case (Inl m)
  with assms show ?thesis by (auto simp: transfer_def)
next
  case (Inr y)
  obtain t name where y: "y = (t, name)" by (cases y)
  let ?evs0 = "[REPLY STARTING_DOWNLOAD_MSG, MEGA_GET_PUBLIC_FILE link]"
  let ?sh0 = "\<lparr>downloaded = 0, download_complete = False,
                        uploaded = 0, upload_complete = False,
                        pending = download_thread lk (mega_download_url w)\<rparr>"
  obtain evs1 r1 where dl: "download_loop w t name fuel 0 (run_worker (dl_schedule w 0) ?sh0) 0
      (?evs0 @ [START_DOWNLOAD_THREAD link]) = (evs1, r1)"
    by (cases "download_loop w t name fuel 0 (run_worker (dl_schedule w 0) ?sh0) 0
      (?evs0 @ [START_DOWNLOAD_THREAD link])")
  from download_loop_trace [OF dl] obtain new where new:
    "evs1 = (?evs0 @ [START_DOWNLOAD_THREAD link]) @ new"
    "\<forall>x \<in> set new. \<exists>bar. x = EDIT (DOWNLOADING_MSG name bar)"
    "\<forall>e. r1 = RAISED e \<longrightarrow> e = ZeroDivisionError \<or> e = OverflowError" by blast
  have benign1: "\<forall>x \<in> set ([START_DOWNLOAD_THREAD link] @ new).
      (\<forall>n u. x \<noteq> EDIT (SUCCESS_MSG n u)) \<and> (\<forall>e. x \<noteq> EDIT (ERROR_MSG e))"
    using new(2) by auto
  have evs1: "evs1 = ?evs0 @ ([START_DOWNLOAD_THREAD link] @ new)" using new(1) by simp
  show ?thesis
  proof (cases r1)
    case WAITING
    with assms Inr y dl have "evs' = evs1" "r = WAITING" by (auto simp: transfer_def Let_def)
    with evs1 benign1 show ?thesis by blast
  next
    case (RAISED e)
    with assms Inr y dl have "evs' = evs1" "r = RAISED e" by (auto simp: transfer_def Let_def)
    moreover have "\<forall>m. e \<noteq> Exception m" using new(3) RAISED by auto
    ultimately show ?thesis using evs1 benign1 by blast
  next
    case (DONE z)
    obtain sh fuel' where z: "z = (sh, fuel')" by (cases z)
    show ?thesis
    proof (cases "downloaded sh = - 1")
      case True
      with assms Inr y dl DONE z have "evs' = evs1" "r = RAISED (Exception (lit ''Download failed''))"
        by (auto simp: transfer_def Let_def)
      with evs1 benign1 show ?thesis by blast
    next
      case False
      with assms Inr y dl DONE z have up: "upload_phase lk w name fuel' sh evs1 = (evs', r)"
        by (auto simp: transfer_def Let_def)
      from upload_phase_trace [OF up] obtain new2 where new2: "evs' = evs1 @ new2"
        "\<forall>x \<in> set new2. (\<forall>n u. x \<noteq> EDIT (SUCCESS_MSG n u)) \<and> (\<forall>e. x \<noteq> EDIT (ERROR_MSG e))"
        "\<forall>m. r \<noteq> RAISED (Exception m)" "r \<noteq> DONE ()" by blast
      have "evs' = ?evs0 @ (([START_DOWNLOAD_THREAD link] @ new) @ new2)"
        using new2(1) evs1 by simp
      moreover have "\<forall>x \<in> set (([START_DOWNLOAD_THREAD link] @ new) @ new2).
          (\<forall>n u. x \<noteq> EDIT (SUCCESS_MSG n u)) \<and> (\<forall>e. x \<noteq> EDIT (ERROR_MSG e))"
        using benign1 new2(2) by auto
      ultimately show ?thesis using new2(3,4) by blast
    qed
  qed
qed

lemma handle_gofile_valid:
  assumes "user_id \<in> ADMINS s" "args \<noteq> []"
    "startswith (join (lit '' '') args) (lit ''https://mega.nz/'')
       \<or> startswith (join (lit '' '') args) (lit ''https://mega.io/'')"
  shows "handle_gofile lk w s user_id args fuel =
     (case transfer lk w (join (lit '' '') args) fuel of
        (evs, WAITING) \<Rightarrow> (evs, RUNNING)
      | (evs, RAISED e) \<Rightarrow> (evs @ [EDIT (ERROR_MSG e)], RETURNED)
      | (evs, DONE _) \<Rightarrow> (evs, RETURNED))"
  using assms by (auto simp add: handle_gofile_def Let_def)

lemma handle_gofile_invalid:
  assumes "user_id \<in> ADMINS s" "args \<noteq> []"
    "\<not> (startswith (join (lit '' '') args) (lit ''https://mega.nz/'')
       \<or> startswith (join (lit '' '') args) (lit ''https://mega.io/''))"
  shows "handle_gofile lk w s user_id args fuel = ([REPLY INVALID_LINK_MSG], RETURNED)"
  using assms by (simp add: handle_gofile_def Let_def)

lemma handle_gofile_valid_prefix:
  assumes "user_id \<in> ADMINS s" "args \<noteq> []"
    "startswith (join (lit '' '') args) (lit ''https://mega.nz/'')
       \<or> startswith (join (lit '' '') args) (lit ''https://mega.io/'')"
  shows "take 2 (fst (handle_gofile lk w s user_id args fuel)) =
     [REPLY STARTING_DOWNLOAD_MSG, MEGA_GET_PUBLIC_FILE (join (lit '' '') args)]"
proof -
  obtain evs r where t: "transfer lk w (join (lit '' '') args) fuel = (evs, r)"
    by (cases "transfer lk w (join (lit '' '') args) fuel")
  from transfer_trace [OF t] obtain new where
    "evs = [REPLY STARTING_DOWNLOAD_MSG, MEGA_GET_PUBLIC_FILE (join (lit '' '') args)] @ new"
    by blast
  then show ?thesis
    unfolding handle_gofile_valid [OF assms] t by (cases r) simp_all
qed

lemma handle_gofile_trace:
  "(\<exists>m. handle_gofile lk w s user_id args fuel = ([REPLY m], RETURNED))
   \<or> (\<exists>evs r. transfer lk w (join (lit '' '') args) fuel = (evs, r)
        \<and> handle_gofile lk w s user_id args fuel =
            (case r of WAITING \<Rightarrow> (evs, RUNNING)
                     | RAISED e \<Rightarrow> (evs @ [EDIT (ERROR_MSG e)], RETURNED)
                     | DONE _ \<Rightarrow> (evs, RETURNED)))"
  by (cases "transfer lk w (join (lit '' '') args) fuel")
    (auto simp: handle_gofile_def Let_def split: run.splits)

lemma transfer_download_raises:
  assumes "mega_download_url w = Some m"
  shows "snd (transfer ENTER_RAISES w link fuel) \<noteq> RAISED (Exception m')"
proof (cases "mega_get_public_file w")
  case (Inl a)
  then show ?thesis by (simp add: transfer_def)
next
  case (Inr y)
  obtain t name where y: "y = (t, name)" by (cases y)
  let ?sh0 = "\<lparr>downloaded = 0, download_complete = False,
                        uploaded = 0, upload_complete = False,
                        pending = download_thread ENTER_RAISES (mega_download_url w)\<rparr>"
  let ?evs1 = "[REPLY STARTING_DOWNLOAD_MSG, MEGA_GET_PUBLIC_FILE link] @ [START_DOWNLOAD_THREAD link]"
  obtain evs1 r1 where dl: "download_loop w t name fuel 0 (run_worker (dl_schedule w 0) ?sh0) 0
      ?evs1 = (evs1, r1)"
    by (cases "download_loop w t name fuel 0 (run_worker (dl_schedule w 0) ?sh0) 0 ?evs1")
  have "pending ?sh0 = []" using assms by (simp add: download_thread_def)
  then have "SET_DOWNLOAD_COMPLETE \<notin> set (pending ?sh0)" "\<not> download_complete ?sh0" by simp_all
  then have "SET_DOWNLOAD_COMPLETE \<notin> set (pending (run_worker (dl_schedule w 0) ?sh0))
      \<and> \<not> download_complete (run_worker (dl_schedule w 0) ?sh0)"
    by (rule run_worker_download_waiting)
  then have nd: "r1 \<noteq> DONE x" for x
    using download_loop_waiting [of "run_worker (dl_schedule w 0) ?sh0" w t name fuel 0 0 ?evs1 x] dl
    by simp
  from download_loop_trace [OF dl]
  have zo: "\<forall>e. r1 = RAISED e \<longrightarrow> e = ZeroDivisionError \<or> e = OverflowError" by blast
  show ?thesis
    using Inr y dl nd zo by (cases r1) (auto simp: transfer_def Let_def)
qed

subsection \<open>Example runs, evaluated\<close>

lemma percent_example:
  "percent 0 1000 = Inr 0" "percent 50 1000 = Inr 5" "percent 100 1000 = Inr 10"
  "percent 150 1000 = Inr 15" "percent 200 1000 = Inr 20" "percent 250 1000 = Inr 25"
  "percent 300 1000 = Inr 30" "percent 350 1000 = Inr 35" "percent 400 1000 = Inr 40"
  "percent 450 1000 = Inr 45" "percent 500 1000 = Inr 50" "percent 550 1000 = Inr 55"
  "percent 600 1000 = Inr 60" "percent 650 1000 = Inr 65" "percent 700 1000 = Inr 70"
  "percent 750 1000 = Inr 75" "percent 800 1000 = Inr 80" "percent 850 1000 = Inr 85"
  "percent 900 1000 = Inr 90" "percent 950 1000 = Inr 95" "percent 1000 1000 = Inr 100"
  by (simp_all add: percent_def float_eval)

lemma create_progress_bar_fives:
  assumes "p \<in> {0, 5, 10, 15, 20, 25, 30, 35, 40, 45, 50, 55, 60, 65, 70, 75, 80, 85, 90, 95, 100}"
  shows "create_progress_bar p 20 = Inr (renderBar p)"
  using assms
  by (elim insertE emptyE; simp add: create_progress_bar_def float_eval renderBar_def)

lemma percent_coarse: "percent 70 1000 = Inr 7"
  by (simp add: percent_def float_eval)

lemmas run_eval =
  handle_gofile_def transfer_def upload_phase_def download_iteration_def upload_iteration_def
  report_def Let_def startswith_simps lit_def download_thread_def upload_thread_def
  initial_state_def example_world_def failing_download_world_def upload_error_world_def
  run_worker.simps download_loop.simps upload_loop.simps percent_example
  create_progress_bar_fives upload_result_Thread_result coarse_world_def percent_coarse

text \<open>
  With a lock that could be entered, the sentinel does not survive either: the worker
  writes it while the handler sleeps, the handler then stores the directory size over it,
  leaves the loop on the event, and starts the upload.
\<close>

lemma download_failure_lost_when_lock_entered:
  "handle_gofile ENTERED failing_download_world (initial_state 1) 1
       [lit ''https://mega.nz/file/abc''] 2
     = ([REPLY STARTING_DOWNLOAD_MSG,
         MEGA_GET_PUBLIC_FILE (lit ''https://mega.nz/file/abc''),
         START_DOWNLOAD_THREAD (lit ''https://mega.nz/file/abc''),
         EDIT (DOWNLOADING_MSG (lit ''f.bin'') (renderBar 5)),
         EDIT STARTING_UPLOAD_MSG, GOFILE_GET_SERVERS,
         START_UPLOAD_THREAD (lit ''https://store1.gofile.io/uploadFile'') (lit ''f.bin'')],
        RUNNING)"
  by (simp add: run_eval)

subsection \<open>The edits of the download loop\<close>

lemma fives_in_range:
  assumes "0 \<le> p" "p \<le> 100" "p mod 5 = 0"
  shows "(p::int) \<in> {0, 5, 10, 15, 20, 25, 30, 35, 40, 45, 50, 55, 60, 65, 70, 75, 80, 85, 90, 95, 100}"
  using assms by simp presburger

lemma report_in_range:
  assumes "0 \<le> p" "p \<le> 100"
  shows "report msg lu p =
     Inr (if p \<noteq> lu \<and> p mod 5 = 0 then ([EDIT (msg (renderBar p))], p) else ([], lu))"
  using create_progress_bar_fives [OF fives_in_range [OF assms]]
  by (simp add: report_def)

lemma run_worker_only_complete:
  "set (pending sh) \<subseteq> {SET_DOWNLOAD_COMPLETE} \<Longrightarrow>
     set (pending (run_worker n sh)) \<subseteq> {SET_DOWNLOAD_COMPLETE}
     \<and> downloaded (run_worker n sh) = downloaded sh"
proof (induction n sh rule: run_worker.induct)
  case (1 n sh)
  show ?case
  proof (cases "n = 0")
    case True
    with "1.prems" show ?thesis by (simp add: run_worker.simps)
  next
    case n: False
    show ?thesis
    proof (cases "pending sh")
      case Nil
      with n "1.prems" show ?thesis by (simp add: run_worker.simps)
    next
      case (Cons a rest)
      let ?sh = "do_step a (sh\<lparr>pending := rest\<rparr>)"
      from Cons "1.prems" have a: "a = SET_DOWNLOAD_COMPLETE" by auto
      have "set (pending ?sh) \<subseteq> {SET_DOWNLOAD_COMPLETE}"
        using Cons "1.prems" by (simp add: do_step_pending)
      then have "set (pending (run_worker (n - 1) ?sh)) \<subseteq> {SET_DOWNLOAD_COMPLETE}
          \<and> downloaded (run_worker (n - 1) ?sh) = downloaded ?sh"
        using "1.IH" [OF n Cons] by blast
      moreover have "run_worker n sh = run_worker (n - 1) ?sh"
        using n Cons by (subst run_worker.simps) simp
      moreover have "downloaded ?sh = downloaded sh" using a by simp
      ultimately show ?thesis by simp
    qed
  qed
qed

lemma download_iteration_in_range:
  assumes "0 < t" "int (dir_size w k) \<le> t" "set (pending sh) \<subseteq> {SET_DOWNLOAD_COMPLETE}"
  shows "\<exists>sh'. set (pending sh') \<subseteq> {SET_DOWNLOAD_COMPLETE}
    \<and> download_iteration w t name k sh lu =
        Inr (sh',
             (let p = projr (percent (int (dir_size w k)) t)
              in if p \<noteq> lu \<and> p mod 5 = 0
                 then (p, [EDIT (DOWNLOADING_MSG name (renderBar p))]) else (lu, [])))"
proof -
  let ?sh1 = "run_worker (dl_schedule w (3 * k + 1)) sh"
  let ?sh1' = "?sh1\<lparr>downloaded := int (dir_size w k)\<rparr>"
  let ?sh2 = "run_worker (dl_schedule w (3 * k + 2)) ?sh1'"
  let ?sh3 = "run_worker (dl_schedule w (3 * k + 3)) ?sh2"
  have 1: "set (pending ?sh1) \<subseteq> {SET_DOWNLOAD_COMPLETE}"
    using run_worker_only_complete [OF assms(3)] by blast
  then have "set (pending ?sh1') \<subseteq> {SET_DOWNLOAD_COMPLETE}" by simp
  from run_worker_only_complete [OF this]
  have 2: "set (pending ?sh2) \<subseteq> {SET_DOWNLOAD_COMPLETE}"
    and d: "downloaded ?sh2 = int (dir_size w k)" by simp_all
  from run_worker_only_complete [OF 2]
  have 3: "set (pending ?sh3) \<subseteq> {SET_DOWNLOAD_COMPLETE}" by blast
  from percent_in_range [OF _ assms(2,1)]
  obtain p where p: "percent (int (dir_size w k)) t = Inr p" "0 \<le> p" "p \<le> 100" by auto
  have "download_iteration w t name k sh lu =
        Inr (?sh3,
             (let p = projr (percent (int (dir_size w k)) t)
              in if p \<noteq> lu \<and> p mod 5 = 0
                 then (p, [EDIT (DOWNLOADING_MSG name (renderBar p))]) else (lu, [])))"
    using assms(1) p d by (simp add: download_iteration_def Let_def report_in_range)
  with 3 show ?thesis by blast
qed

lemma reported_Cons:
  "tl (remdups_adj (l # filter P (p # ps))) =
     (if P p \<and> p \<noteq> l then p # tl (remdups_adj (p # filter P ps))
      else tl (remdups_adj (l # filter P ps)))"
  by simp

lemma download_loop_edits:
  assumes "0 < t" "\<forall>j. int (dir_size w j) \<le> t"
    and "set (pending sh) \<subseteq> {SET_DOWNLOAD_COMPLETE}"
    and "download_loop w t name fuel k sh lu evs = (evs', DONE (sh', fuel'))"
  shows "fuel' \<le> fuel \<and> evs' = evs @ map (\<lambda>p. EDIT (DOWNLOADING_MSG name (renderBar p)))
           (tl (remdups_adj (lu # filter (\<lambda>p. p mod 5 = 0)
              (map (\<lambda>j. projr (percent (int (dir_size w j)) t)) [k ..< k + (fuel - fuel')]))))"
  using assms
proof (induction w t name fuel k sh lu evs arbitrary: evs' sh' fuel' rule: download_loop.induct)
  case (1 w t name fuel k sh lu evs)
  show ?case
  proof (cases "download_complete sh")
    case True
    with "1.prems"(4) have "evs' = evs" "fuel' = fuel"
      by (subst (asm) download_loop.simps, simp)+
    then show ?thesis by simp
  next
    case nc: False
    have f0: "fuel \<noteq> 0"
      using nc "1.prems"(4) by (subst (asm) download_loop.simps) (auto split: if_splits)
    define p where "p = projr (percent (int (dir_size w k)) t)"
    define lu' where "lu' = (if p \<noteq> lu \<and> p mod 5 = 0 then p else lu)"
    define new where "new = (if p \<noteq> lu \<and> p mod 5 = 0
      then [EDIT (DOWNLOADING_MSG name (renderBar p))] else [])"
    have sz: "int (dir_size w k) \<le> t" using "1.prems"(2) by simp
    from download_iteration_in_range [OF "1.prems"(1) sz "1.prems"(3), where name = name and lu = lu]
    obtain sh1 where sh1: "set (pending sh1) \<subseteq> {SET_DOWNLOAD_COMPLETE}"
      and it0: "download_iteration w t name k sh lu =
        Inr (sh1, (if p \<noteq> lu \<and> p mod 5 = 0
                   then (p, [EDIT (DOWNLOADING_MSG name (renderBar p))]) else (lu, [])))"
      unfolding Let_def p_def by blast
    have it: "download_iteration w t name k sh lu = Inr (sh1, lu', new)"
      using it0 by (simp add: lu'_def new_def)
    have rec: "download_loop w t name (fuel - 1) (Suc k) sh1 lu' (evs @ new)
        = (evs', DONE (sh', fuel'))"
      using nc f0 it "1.prems"(4) by (subst (asm) download_loop.simps) simp
    define ps' where "ps' = map (\<lambda>j. projr (percent (int (dir_size w j)) t))
        [Suc k ..< Suc k + (fuel - 1 - fuel')]"
    from "1.IH" [OF nc f0 it refl refl "1.prems"(1,2) sh1 rec]
    have le: "fuel' \<le> fuel - 1"
      and evs': "evs' = (evs @ new) @ map (\<lambda>p. EDIT (DOWNLOADING_MSG name (renderBar p)))
           (tl (remdups_adj (lu' # filter (\<lambda>p. p mod 5 = 0) ps')))"
      unfolding ps'_def by simp_all
    have "Suc k + (fuel - 1 - fuel') = k + (fuel - fuel')" "k < k + (fuel - fuel')"
      using le f0 by arith+
    then have upt: "[k ..< k + (fuel - fuel')] = k # [Suc k ..< Suc k + (fuel - 1 - fuel')]"
      by (simp only: upt_conv_Cons)
    have map_eq: "map (\<lambda>j. projr (percent (int (dir_size w j)) t)) [k ..< k + (fuel - fuel')]
        = p # ps'"
      unfolding upt by (simp only: list.map ps'_def p_def)
    have "fuel' \<le> fuel" using le by simp
    moreover have "evs' = evs @ map (\<lambda>p. EDIT (DOWNLOADING_MSG name (renderBar p)))
           (tl (remdups_adj (lu # filter (\<lambda>p. p mod 5 = 0)
              (map (\<lambda>j. projr (percent (int (dir_size w j)) t)) [k ..< k + (fuel - fuel')]))))"
      unfolding map_eq evs'
      by (subst reported_Cons) (simp add: lu'_def new_def del: remdups_adj_Cons_alt)
    ultimately show ?thesis by blast
  qed
qed

lemma sorted_distinct_adj:
  "sorted xs \<Longrightarrow> distinct_adj xs \<Longrightarrow> distinct (xs :: int list)"
proof (induction xs)
  case Nil
  then show ?case by simp
next
  case (Cons x xs)
  show ?case
  proof (cases xs)
    case Nil
    then show ?thesis by simp
  next
    case (Cons y ys)
    with Cons.prems have "x < y" "\<forall>z \<in> set xs. y \<le> z" by auto
    then have "x \<notin> set xs" by auto
    with Cons.IH Cons.prems show ?thesis by (simp add: Cons)
  qed
qed

lemma reported_sorted:
  assumes "sorted ps" "\<forall>p \<in> set ps. (0::int) \<le> p"
  shows "sorted (tl (remdups_adj (0 # filter P ps)))"
    and "distinct (tl (remdups_adj (0 # filter P ps)))"
    and "set (tl (remdups_adj (0 # filter P ps))) = {p \<in> set ps. P p \<and> p \<noteq> 0}"
proof -
  define es where "es = tl (remdups_adj (0 # filter P ps))"
  have eq: "remdups_adj (0 # filter P ps) = 0 # es" by (simp add: es_def)
  have "sorted (0 # filter P ps)" using assms by (simp add: sorted_wrt_filter)
  then have s: "sorted (0 # es)" using sorted_remdups_adj [of "0 # filter P ps"] eq by simp
  have "distinct_adj (0 # es)" using distinct_adj_remdups_adj [of "0 # filter P ps"] eq by simp
  with s have d: "distinct (0 # es)" by (rule sorted_distinct_adj)
  have seteq: "insert 0 (set es) = insert 0 {x \<in> set ps. P x}"
    using remdups_adj_set [of "0 # filter P ps"] eq by simp
  from d have "0 \<notin> set es" by simp
  then have "set es = insert 0 (set es) - {0}" by simp
  also have "\<dots> = insert 0 {x \<in> set ps. P x} - {0}" by (simp only: seteq)
  also have "\<dots> = {p \<in> set ps. P p \<and> p \<noteq> 0}" by auto
  finally have "set es = {p \<in> set ps. P p \<and> p \<noteq> 0}" .
  moreover from s d have "sorted es" "distinct es" by simp_all
  ultimately show "sorted (tl (remdups_adj (0 # filter P ps)))"
    and "distinct (tl (remdups_adj (0 # filter P ps)))"
    and "set (tl (remdups_adj (0 # filter P ps))) = {p \<in> set ps. P p \<and> p \<noteq> 0}"
    unfolding es_def by blast+
qed

lemma percents_sorted:
  assumes "0 < t" "\<forall>j. dir_size w j \<le> dir_size w (Suc j)" "\<forall>j. int (dir_size w j) \<le> t"
  shows "sorted (map (\<lambda>j. projr (percent (int (dir_size w j)) t)) [k ..< n])"
proof -
  have mono: "dir_size w i \<le> dir_size w j" if "i \<le> j" for i j
  proof (rule lift_Suc_mono_le [OF _ that])
    fix n show "dir_size w n \<le> dir_size w (Suc n)" using assms(2) by blast
  qed
  have le: "projr (percent (int (dir_size w i)) t) \<le> projr (percent (int (dir_size w j)) t)"
    if "i \<le> j" for i j
  proof -
    have i0: "0 \<le> int (dir_size w i)" and j0: "0 \<le> int (dir_size w j)" by simp_all
    have it: "int (dir_size w i) \<le> t" and jt: "int (dir_size w j) \<le> t"
      using assms(3) by blast+
    from percent_in_range [OF i0 it assms(1)]
    obtain p where p: "percent (int (dir_size w i)) t = Inr p" by blast
    from percent_in_range [OF j0 jt assms(1)]
    obtain p' where p': "percent (int (dir_size w j)) t = Inr p'" by blast
    have ij: "int (dir_size w i) \<le> int (dir_size w j)" using mono [OF that] by simp
    have "p \<le> p'" by (rule percent_mono [OF i0 ij jt assms(1) p p'])
    with p p' show ?thesis by simp
  qed
  have "sorted_wrt (\<lambda>i j. projr (percent (int (dir_size w i)) t)
      \<le> projr (percent (int (dir_size w j)) t)) [k ..< n]"
  proof (rule sorted_wrt_mono_rel [where P = "(\<le>)"])
    show "sorted [k ..< n]" by (rule sorted_upt)
  next
    fix i j :: nat
    assume "i \<le> j"
    then show "projr (percent (int (dir_size w i)) t) \<le> projr (percent (int (dir_size w j)) t)"
      by (rule le)
  qed
  then show ?thesis by (simp only: sorted_map)
qed

lemma example_run:
  "download_loop example_world 1000 (lit ''f.bin'') 30 0
     (run_worker (dl_schedule example_world 0)
        \<lparr>downloaded = 0, download_complete = False, uploaded = 0, upload_complete = False,
         pending = download_thread ENTER_RAISES (mega_download_url example_world)\<rparr>) 0 []
   = (map (\<lambda>p. EDIT (DOWNLOADING_MSG (lit ''f.bin'') (renderBar p)))
        [5, 10, 15, 20, 25, 30, 35, 40, 45, 50, 55, 60, 65, 70, 75, 80, 85, 90, 95, 100],
      DONE (\<lparr>downloaded = 1000, download_complete = True, uploaded = 0,
              upload_complete = False, pending = []\<rparr>, 9))"
  by (simp add: run_eval)

section \<open>Claims about the admin store\<close>

text \<open>
  C5. For every identity \<open>i\<close>, in every state the bot reaches from its initial state by
  admin commands, \<open>i\<close> is authorized if and only if \<open>i\<close> is the main admin or a
  member of the regular-admin set; initially the regular-admin set is empty and the main
  admin is authorized.
\<close>

theorem is_authorized_iff:
  "(is_authorized (run_commands m cs (initial_state m)) i
      \<longleftrightarrow> i = m \<or> i \<in> ADDITIONAL_ADMINS (run_commands m cs (initial_state m)))
   \<and> ADDITIONAL_ADMINS (initial_state m) = {}
   \<and> is_authorized (initial_state m) m"
proof -
  have "admin_inv m (run_commands m cs (initial_state m))"
    by (rule admin_inv_run_commands [OF admin_inv_initial])
  then have "is_authorized (run_commands m cs (initial_state m)) i
      \<longleftrightarrow> i = m \<or> i \<in> ADDITIONAL_ADMINS (run_commands m cs (initial_state m))"
    by (simp add: admin_inv_def is_authorized_def)
  moreover have "ADDITIONAL_ADMINS (initial_state m) = {}" "is_authorized (initial_state m) m"
    by (simp_all add: initial_state_def is_authorized_def)
  ultimately show ?thesis by blast
qed

text \<open>
  C7. For every requester other than the main admin and every argument list,
  \<^verbatim>\<open>add_admin\<close> answers with the access-denied reply and leaves both admin sets as
  they were.
\<close>

theorem add_admin_denied:
  "user_id \<noteq> m \<Longrightarrow> add_admin m user_id args s = (ACCESS_DENIED, s)"
  by simp

theorem add_admin_denied_witness:
  "(2::int) \<noteq> 1
   \<and> add_admin 1 2 [Some 3] (initial_state 1) = (ACCESS_DENIED, initial_state 1)"
  using add_admin_denied [of 2 1 "[Some 3]" "initial_state 1"] by simp

text \<open>
  C8. A removal whose target is the main admin is refused whoever asks: a requester
  other than the main admin is denied access, the main admin is told that the main admin
  cannot be removed, and in both cases the admin sets are unchanged.
\<close>

theorem remove_admin_main_refused:
  "remove_admin m user_id (Some m # rest) s =
     ((if user_id = m then CANNOT_REMOVE_MAIN else ACCESS_DENIED), s)
   \<and> remove_admin m m (Some m # rest) s = (CANNOT_REMOVE_MAIN, s)"
  by simp

text \<open>
  C10. The invariant holds initially and every \<^verbatim>\<open>add_admin\<close> and
  \<^verbatim>\<open>remove_admin\<close> call preserves it: the access set is the main admin together
  with the regular admins, and the main admin is never a regular admin.
\<close>

theorem admin_inv_preserved:
  "admin_inv m s \<Longrightarrow>
     admin_inv m (snd (add_admin m user_id args s))
     \<and> admin_inv m (snd (remove_admin m user_id args s))"
  using admin_inv_add admin_inv_remove by blast

theorem admin_inv_preserved_witness:
  "admin_inv 1 (initial_state 1)
   \<and> admin_inv 1 (snd (add_admin 1 1 [Some 2] (initial_state 1)))
   \<and> admin_inv 1 (snd (remove_admin 1 1 [Some 2] (initial_state 1)))"
  using admin_inv_preserved [of 1 "initial_state 1" 1 "[Some 2]"]
  by (simp add: admin_inv_def initial_state_def)

section \<open>Claims about the progress bar\<close>

text \<open>
  C6. For every percent \<open>p\<close> in \<open>{0, 25, 50, 75, 100}\<close> the bar of width 20 is an
  opening bracket, \<open>20 * p div 100\<close> filled glyphs, then empty glyphs up to 20 glyphs in
  all, a closing bracket and a space, and the text of \<open>p\<close> followed by a percent sign;
  at 0 all 20 glyphs are empty and at 100 all are filled.
\<close>

theorem create_progress_bar_quarters:
  assumes "p \<in> {0, 25, 50, 75, 100}"
  shows "create_progress_bar p 20 =
           Inr (lit ''['' @ replicate (nat (20 * p div 100)) STAR
                @ replicate (20 - nat (20 * p div 100)) WHITE_STAR
                @ lit ''] '' @ str_int p @ lit ''%'')
         \<and> create_progress_bar 0 20 = Inr (lit ''['' @ replicate 20 WHITE_STAR @ lit ''] 0%'')
         \<and> create_progress_bar 100 20 = Inr (lit ''['' @ replicate 20 STAR @ lit ''] 100%'')"
proof -
  have ends: "create_progress_bar 0 20 = Inr (lit ''['' @ replicate 20 WHITE_STAR @ lit ''] 0%'')"
    "create_progress_bar 100 20 = Inr (lit ''['' @ replicate 20 STAR @ lit ''] 100%'')"
    by (simp_all add: create_progress_bar_def float_eval str_int_def lit_def)
  have "create_progress_bar 0 20 =
           Inr (lit ''['' @ replicate (nat (20 * 0 div 100)) STAR
                @ replicate (20 - nat (20 * 0 div 100)) WHITE_STAR
                @ lit ''] '' @ str_int 0 @ lit ''%'')"
    by (simp add: create_progress_bar_def float_eval str_int_def)
  moreover have "create_progress_bar 25 20 =
           Inr (lit ''['' @ replicate (nat (20 * 25 div 100)) STAR
                @ replicate (20 - nat (20 * 25 div 100)) WHITE_STAR
                @ lit ''] '' @ str_int 25 @ lit ''%'')"
    by (simp add: create_progress_bar_def float_eval str_int_def)
  moreover have "create_progress_bar 50 20 =
           Inr (lit ''['' @ replicate (nat (20 * 50 div 100)) STAR
                @ replicate (20 - nat (20 * 50 div 100)) WHITE_STAR
                @ lit ''] '' @ str_int 50 @ lit ''%'')"
    by (simp add: create_progress_bar_def float_eval str_int_def)
  moreover have "create_progress_bar 75 20 =
           Inr (lit ''['' @ replicate (nat (20 * 75 div 100)) STAR
                @ replicate (20 - nat (20 * 75 div 100)) WHITE_STAR
                @ lit ''] '' @ str_int 75 @ lit ''%'')"
    by (simp add: create_progress_bar_def float_eval str_int_def)
  moreover have "create_progress_bar 100 20 =
           Inr (lit ''['' @ replicate (nat (20 * 100 div 100)) STAR
                @ replicate (20 - nat (20 * 100 div 100)) WHITE_STAR
                @ lit ''] '' @ str_int 100 @ lit ''%'')"
    by (simp add: create_progress_bar_def float_eval str_int_def)
  ultimately show ?thesis using assms ends by blast
qed

theorem create_progress_bar_quarters_witness:
  "create_progress_bar 25 20 =
     Inr (lit ''['' @ replicate 5 STAR @ replicate 15 WHITE_STAR @ lit ''] 25%'')"
proof -
  have "(25::int) \<in> {0, 25, 50, 75, 100}" by simp
  from create_progress_bar_quarters [OF this]
  have "create_progress_bar 25 20 =
           Inr (lit ''['' @ replicate (nat (20 * 25 div 100)) STAR
                @ replicate (20 - nat (20 * 25 div 100)) WHITE_STAR
                @ lit ''] '' @ str_int 25 @ lit ''%'')" by blast
  moreover have "nat (20 * 25 div 100) = 5" by simp
  moreover have "str_int 25 = lit ''25''" by (simp add: str_int_def lit_def)
  ultimately show ?thesis by (simp add: lit_def)
qed

section \<open>Claims about the transfer handler\<close>

text \<open>
  C4. For an authorized user and a non-empty argument list, the handler goes on to its
  first request, \<^verbatim>\<open>mega.get_public_file\<close>, exactly when the link starts with
  \<^verbatim>\<open>https://mega.nz/\<close> or \<^verbatim>\<open>https://mega.io/\<close>; for every other link the
  whole run is the one reply that the link is invalid, with no request to Mega or
  Gofile and no worker started. \<^verbatim>\<open>http://mega.nz/file/abc\<close> and
  \<^verbatim>\<open>https://example.com/x\<close> are rejected, \<^verbatim>\<open>https://mega.nz/file/abc\<close> passes.
\<close>

theorem link_validation:
  assumes "user_id \<in> ADMINS s" and "args \<noteq> []"
  shows "(if startswith (join (lit '' '') args) (lit ''https://mega.nz/'')
             \<or> startswith (join (lit '' '') args) (lit ''https://mega.io/'')
          then take 2 (fst (handle_gofile lk w s user_id args fuel)) =
                 [REPLY STARTING_DOWNLOAD_MSG, MEGA_GET_PUBLIC_FILE (join (lit '' '') args)]
          else handle_gofile lk w s user_id args fuel = ([REPLY INVALID_LINK_MSG], RETURNED))
     \<and> handle_gofile lk w s user_id [lit ''http://mega.nz/file/abc''] fuel
           = ([REPLY INVALID_LINK_MSG], RETURNED)
     \<and> handle_gofile lk w s user_id [lit ''https://example.com/x''] fuel
           = ([REPLY INVALID_LINK_MSG], RETURNED)
     \<and> take 2 (fst (handle_gofile lk w s user_id [lit ''https://mega.nz/file/abc''] fuel))
           = [REPLY STARTING_DOWNLOAD_MSG, MEGA_GET_PUBLIC_FILE (lit ''https://mega.nz/file/abc'')]"
proof -
  have a: "\<not> (startswith (join (lit '' '') [lit ''http://mega.nz/file/abc'']) (lit ''https://mega.nz/'')
       \<or> startswith (join (lit '' '') [lit ''http://mega.nz/file/abc'']) (lit ''https://mega.io/''))"
    by (simp add: lit_def startswith_simps)
  have b: "\<not> (startswith (join (lit '' '') [lit ''https://example.com/x'']) (lit ''https://mega.nz/'')
       \<or> startswith (join (lit '' '') [lit ''https://example.com/x'']) (lit ''https://mega.io/''))"
    by (simp add: lit_def startswith_simps)
  have c: "startswith (join (lit '' '') [lit ''https://mega.nz/file/abc'']) (lit ''https://mega.nz/'')
       \<or> startswith (join (lit '' '') [lit ''https://mega.nz/file/abc'']) (lit ''https://mega.io/'')"
    by (simp add: lit_def startswith_simps)
  have ne: "[x] \<noteq> []" for x :: pystr by simp
  have "handle_gofile lk w s user_id [lit ''http://mega.nz/file/abc''] fuel
           = ([REPLY INVALID_LINK_MSG], RETURNED)"
    by (rule handle_gofile_invalid [OF assms(1) ne a])
  moreover have "handle_gofile lk w s user_id [lit ''https://example.com/x''] fuel
           = ([REPLY INVALID_LINK_MSG], RETURNED)"
    by (rule handle_gofile_invalid [OF assms(1) ne b])
  moreover have "take 2 (fst (handle_gofile lk w s user_id [lit ''https://mega.nz/file/abc''] fuel))
           = [REPLY STARTING_DOWNLOAD_MSG, MEGA_GET_PUBLIC_FILE (lit ''https://mega.nz/file/abc'')]"
    using handle_gofile_valid_prefix [OF assms(1) ne c, of lk w fuel] by simp
  moreover have "(if startswith (join (lit '' '') args) (lit ''https://mega.nz/'')
             \<or> startswith (join (lit '' '') args) (lit ''https://mega.io/'')
          then take 2 (fst (handle_gofile lk w s user_id args fuel)) =
                 [REPLY STARTING_DOWNLOAD_MSG, MEGA_GET_PUBLIC_FILE (join (lit '' '') args)]
          else handle_gofile lk w s user_id args fuel = ([REPLY INVALID_LINK_MSG], RETURNED))"
    using handle_gofile_valid_prefix [OF assms] handle_gofile_invalid [OF assms]
    by (simp del: One_nat_def)
  ultimately show ?thesis by blast
qed

theorem link_validation_witness:
  "(1::int) \<in> ADMINS (initial_state 1) \<and> [lit ''https://example.com/x''] \<noteq> []
   \<and> handle_gofile ENTER_RAISES example_world (initial_state 1) 1 [lit ''https://example.com/x''] 5
       = ([REPLY INVALID_LINK_MSG], RETURNED)
   \<and> take 2 (fst (handle_gofile ENTER_RAISES example_world (initial_state 1) 1
         [lit ''https://mega.io/file/abc''] 5))
       = [REPLY STARTING_DOWNLOAD_MSG, MEGA_GET_PUBLIC_FILE (lit ''https://mega.io/file/abc'')]"
proof -
  have adm: "(1::int) \<in> ADMINS (initial_state 1)" by (simp add: initial_state_def)
  have ne: "[x] \<noteq> []" for x :: pystr by simp
  have "startswith (join (lit '' '') [lit ''https://mega.io/file/abc'']) (lit ''https://mega.io/'')"
    by (simp add: lit_def startswith_simps)
  then show ?thesis
    using link_validation [OF adm ne, of "lit ''https://mega.io/file/abc''" ENTER_RAISES example_world 5]
      link_validation [OF adm ne, of "lit ''https://example.com/x''" ENTER_RAISES example_world 5] adm
    by simp
qed

text \<open>
  C3, as the code has it. The loop starts with 0 as the last reported percent and edits
  the status message when the percent of the current observation is another value and a
  multiple of 5. So for a download that succeeds, whose observed sizes never decrease
  and never exceed the declared total, the edits of a finished download loop are, in
  increasing order and once each, the non-zero multiples of 5 that are the percent of
  some observation: none at 0, none twice, and none at a multiple of 5 that no
  observation hit.
\<close>

theorem download_edits:
  assumes "0 < total_size"
    and "\<forall>j. dir_size w j \<le> dir_size w (Suc j)"
    and "\<forall>j. int (dir_size w j) \<le> total_size"
    and "mega_download_url w = None"
    and "download_loop w total_size file_name fuel 0
           (run_worker (dl_schedule w 0)
              \<lparr>downloaded = 0, download_complete = False, uploaded = 0, upload_complete = False,
               pending = download_thread lk (mega_download_url w)\<rparr>) 0 evs
         = (evs', DONE (sh', fuel'))"
  shows "\<exists>es. evs' = evs @ map (\<lambda>p. EDIT (DOWNLOADING_MSG file_name (renderBar p))) es
           \<and> sorted es \<and> distinct es
           \<and> set es = {p. p \<noteq> 0 \<and> p mod 5 = 0
                \<and> (\<exists>j < fuel - fuel'. percent (int (dir_size w j)) total_size = Inr p)}"
proof -
  let ?sh0 = "\<lparr>downloaded = 0, download_complete = False, uploaded = 0, upload_complete = False,
               pending = download_thread lk (mega_download_url w)\<rparr>"
  define n where "n = fuel - fuel'"
  define ps where "ps = map (\<lambda>j. projr (percent (int (dir_size w j)) total_size)) [0 ..< n]"
  define es where "es = tl (remdups_adj (0 # filter (\<lambda>p. p mod 5 = 0) ps))"
  have "set (pending ?sh0) \<subseteq> {SET_DOWNLOAD_COMPLETE}"
    using assms(4) by (simp add: download_thread_def)
  then have "set (pending (run_worker (dl_schedule w 0) ?sh0)) \<subseteq> {SET_DOWNLOAD_COMPLETE}"
    using run_worker_only_complete by blast
  from download_loop_edits [OF assms(1,3) this assms(5)]
  have evs': "evs' = evs @ map (\<lambda>p. EDIT (DOWNLOADING_MSG file_name (renderBar p))) es"
    by (simp add: es_def ps_def n_def)
  have inr: "percent (int (dir_size w j)) total_size
      = Inr (projr (percent (int (dir_size w j)) total_size))
    \<and> 0 \<le> projr (percent (int (dir_size w j)) total_size)" for j
  proof -
    have "0 \<le> int (dir_size w j)" by simp
    moreover have "int (dir_size w j) \<le> total_size" using assms(3) by blast
    ultimately obtain p where "percent (int (dir_size w j)) total_size = Inr p" "0 \<le> p"
      using percent_in_range [OF _ _ assms(1)] by blast
    then show ?thesis by simp
  qed
  have sorted: "sorted ps" unfolding ps_def by (rule percents_sorted [OF assms(1,2,3)])
  have nonneg: "\<forall>p \<in> set ps. 0 \<le> p" using inr by (auto simp: ps_def)
  have "set ps = {p. \<exists>j < n. percent (int (dir_size w j)) total_size = Inr p}"
  proof (rule set_eqI)
    fix p
    have "p \<in> set ps \<longleftrightarrow> (\<exists>j < n. projr (percent (int (dir_size w j)) total_size) = p)"
      by (auto simp: ps_def)
    also have "\<dots> \<longleftrightarrow> (\<exists>j < n. percent (int (dir_size w j)) total_size = Inr p)"
      using inr by (metis sum.sel(2))
    finally show "p \<in> set ps \<longleftrightarrow> p \<in> {p. \<exists>j < n. percent (int (dir_size w j)) total_size = Inr p}"
      by simp
  qed
  with reported_sorted(3) [OF sorted nonneg, of "\<lambda>p. p mod 5 = 0"]
  have "set es = {p. p \<noteq> 0 \<and> p mod 5 = 0
      \<and> (\<exists>j < n. percent (int (dir_size w j)) total_size = Inr p)}"
    unfolding es_def by auto
  moreover have "sorted es" "distinct es"
    unfolding es_def by (rule reported_sorted [OF sorted nonneg])+
  ultimately show ?thesis using evs' unfolding n_def by blast
qed

theorem download_edits_witness:
  "(0::int) < 1000
   \<and> (\<forall>j. dir_size example_world j \<le> dir_size example_world (Suc j))
   \<and> (\<forall>j. int (dir_size example_world j) \<le> 1000)
   \<and> mega_download_url example_world = None
   \<and> download_loop example_world 1000 (lit ''f.bin'') 30 0
         (run_worker (dl_schedule example_world 0)
            \<lparr>downloaded = 0, download_complete = False, uploaded = 0, upload_complete = False,
             pending = download_thread ENTER_RAISES (mega_download_url example_world)\<rparr>) 0 []
       = (map (\<lambda>p. EDIT (DOWNLOADING_MSG (lit ''f.bin'') (renderBar p)))
            [5, 10, 15, 20, 25, 30, 35, 40, 45, 50, 55, 60, 65, 70, 75, 80, 85, 90, 95, 100],
          DONE (\<lparr>downloaded = 1000, download_complete = True, uploaded = 0,
                  upload_complete = False, pending = []\<rparr>, 9))
   \<and> (\<exists>es. map (\<lambda>p. EDIT (DOWNLOADING_MSG (lit ''f.bin'') (renderBar p)))
            [5, 10, 15, 20, 25, 30, 35, 40, 45, 50, 55, 60, 65, 70, 75, 80, 85, 90, 95, 100]
          = [] @ map (\<lambda>p. EDIT (DOWNLOADING_MSG (lit ''f.bin'') (renderBar p))) es
        \<and> sorted es \<and> distinct es
        \<and> set es = {p. p \<noteq> 0 \<and> p mod 5 = 0
             \<and> (\<exists>j < 30 - 9. percent (int (dir_size example_world j)) 1000 = Inr p)})"
proof -
  have h1: "(0::int) < 1000" by simp
  have h2: "\<forall>j. dir_size example_world j \<le> dir_size example_world (Suc j)"
    by (auto simp add: example_world_def min_def)
  have h3: "\<forall>j. int (dir_size example_world j) \<le> 1000"
    by (simp add: example_world_def)
  have h4: "mega_download_url example_world = None"
    by (simp add: example_world_def)
  from download_edits [OF h1 h2 h3 h4 example_run] h1 h2 h3 h4 example_run
  show ?thesis by blast
qed

text \<open>
  C3 as it is stated fails on the run that sees the directory at 0, 70 and 1000 bytes
  of 1000: the only edit of the download phase is the one at 100 percent. There is none
  at 0, and none at 5, although the observed percent went from 0 past 5 to 7.
\<close>

theorem download_edits_counterexample:
  "handle_gofile ENTER_RAISES coarse_world (initial_state 1) 1
       [lit ''https://mega.nz/file/abc''] 3
     = ([REPLY STARTING_DOWNLOAD_MSG,
         MEGA_GET_PUBLIC_FILE (lit ''https://mega.nz/file/abc''),
         START_DOWNLOAD_THREAD (lit ''https://mega.nz/file/abc''),
         EDIT (DOWNLOADING_MSG (lit ''f.bin'') (renderBar 100)),
         EDIT STARTING_UPLOAD_MSG, GOFILE_GET_SERVERS,
         START_UPLOAD_THREAD (lit ''https://store1.gofile.io/uploadFile'') (lit ''f.bin'')],
        RUNNING)"
  by (simp add: run_eval coarse_world_def percent_coarse)

text \<open>
  C1, as the code has it with the lock that cannot be entered: when
  \<^verbatim>\<open>mega.download_url\<close> raises, the worker writes nothing (neither the sentinel
  nor the event), the download loop is never left normally however long it is
  observed, and the handler never shows the message \<^verbatim>\<open>Download failed\<close>.
\<close>

theorem download_failure_never_reported:
  assumes "mega_download_url w = Some m"
  shows "download_thread ENTER_RAISES (mega_download_url w) = []
    \<and> (\<forall>fuel x. snd (download_loop w total_size file_name fuel 0
          (run_worker (dl_schedule w 0)
             \<lparr>downloaded = 0, download_complete = False, uploaded = 0, upload_complete = False,
              pending = download_thread ENTER_RAISES (mega_download_url w)\<rparr>) 0 evs) \<noteq> DONE x)
    \<and> (\<forall>fuel. EDIT (ERROR_MSG (Exception (lit ''Download failed'')))
          \<notin> set (fst (handle_gofile ENTER_RAISES w s user_id args fuel)))"
proof -
  let ?sh0 = "\<lparr>downloaded = 0, download_complete = False, uploaded = 0, upload_complete = False,
              pending = download_thread ENTER_RAISES (mega_download_url w)\<rparr>"
  have a: "download_thread ENTER_RAISES (mega_download_url w) = []"
    using assms by (simp add: download_thread_def)
  then have "SET_DOWNLOAD_COMPLETE \<notin> set (pending ?sh0)" "\<not> download_complete ?sh0" by simp_all
  then have "SET_DOWNLOAD_COMPLETE \<notin> set (pending (run_worker (dl_schedule w 0) ?sh0))
      \<and> \<not> download_complete (run_worker (dl_schedule w 0) ?sh0)"
    by (rule run_worker_download_waiting)
  then have b: "\<forall>fuel x. snd (download_loop w total_size file_name fuel 0
          (run_worker (dl_schedule w 0) ?sh0) 0 evs) \<noteq> DONE x"
    using download_loop_waiting by blast
  have c: "EDIT (ERROR_MSG (Exception (lit ''Download failed'')))
          \<notin> set (fst (handle_gofile ENTER_RAISES w s user_id args fuel))" for fuel
  proof -
    from handle_gofile_trace [of ENTER_RAISES w s user_id args fuel]
    consider msg where "handle_gofile ENTER_RAISES w s user_id args fuel = ([REPLY msg], RETURNED)"
      | evs' r where "transfer ENTER_RAISES w (join (lit '' '') args) fuel = (evs', r)"
          "handle_gofile ENTER_RAISES w s user_id args fuel =
            (case r of WAITING \<Rightarrow> (evs', RUNNING)
                     | RAISED e \<Rightarrow> (evs' @ [EDIT (ERROR_MSG e)], RETURNED)
                     | DONE _ \<Rightarrow> (evs', RETURNED))"
      by blast
    then show ?thesis
    proof cases
      case 1
      then show ?thesis by simp
    next
      case 2
      from transfer_trace [OF 2(1)]
      have ev: "EDIT (ERROR_MSG (Exception (lit ''Download failed''))) \<notin> set evs'" by auto
      have "r \<noteq> RAISED (Exception (lit ''Download failed''))"
        using transfer_download_raises [OF assms, of "join (lit '' '') args" fuel] 2(1) by simp
      with ev 2(2) show ?thesis by (cases r) auto
    qed
  qed
  from a b c show ?thesis by blast
qed

theorem download_failure_never_reported_witness:
  "mega_download_url failing_download_world = Some (lit ''boom'')
   \<and> handle_gofile ENTER_RAISES failing_download_world (initial_state 1) 1
         [lit ''https://mega.nz/file/abc''] 3
       = ([REPLY STARTING_DOWNLOAD_MSG,
           MEGA_GET_PUBLIC_FILE (lit ''https://mega.nz/file/abc''),
           START_DOWNLOAD_THREAD (lit ''https://mega.nz/file/abc''),
           EDIT (DOWNLOADING_MSG (lit ''f.bin'') (renderBar 5)),
           EDIT (DOWNLOADING_MSG (lit ''f.bin'') (renderBar 10))], RUNNING)
   \<and> (\<forall>fuel. EDIT (ERROR_MSG (Exception (lit ''Download failed'')))
          \<notin> set (fst (handle_gofile ENTER_RAISES failing_download_world (initial_state 1) 1
                         [lit ''https://mega.nz/file/abc''] fuel)))"
proof -
  have h: "mega_download_url failing_download_world = Some (lit ''boom'')"
    by (simp add: failing_download_world_def example_world_def)
  have "handle_gofile ENTER_RAISES failing_download_world (initial_state 1) 1
         [lit ''https://mega.nz/file/abc''] 3
       = ([REPLY STARTING_DOWNLOAD_MSG,
           MEGA_GET_PUBLIC_FILE (lit ''https://mega.nz/file/abc''),
           START_DOWNLOAD_THREAD (lit ''https://mega.nz/file/abc''),
           EDIT (DOWNLOADING_MSG (lit ''f.bin'') (renderBar 5)),
           EDIT (DOWNLOADING_MSG (lit ''f.bin'') (renderBar 10))], RUNNING)"
    by (simp add: run_eval)
  with h download_failure_never_reported [OF h] show ?thesis by blast
qed

text \<open>
  C9. The upload worker sets the completion event only in its \<^verbatim>\<open>except\<close> branch:
  when the upload succeeds, the event is not among the worker's writes and the upload
  loop is never left normally, however long it is observed and however the worker is
  scheduled.
\<close>

theorem upload_loop_exits_only_on_failure:
  assumes "post w = Inr resp"
  shows "SET_UPLOAD_COMPLETE \<notin> set (upload_thread lk (upload_reads w) (post w))
    \<and> (\<forall>fuel r. snd (upload_loop w file_size file_name fuel 0
          (run_worker (ul_schedule w 0)
             (sh\<lparr>uploaded := 0, upload_complete := False,
                 pending := upload_thread lk (upload_reads w) (post w)\<rparr>)) 0 evs) \<noteq> DONE r)"
proof -
  let ?sh0 = "sh\<lparr>uploaded := 0, upload_complete := False,
                 pending := upload_thread lk (upload_reads w) (post w)\<rparr>"
  have a: "SET_UPLOAD_COMPLETE \<notin> set (upload_thread lk (upload_reads w) (post w))"
    using assms by (simp add: upload_thread_complete)
  then have "SET_UPLOAD_COMPLETE \<notin> set (pending ?sh0)" "\<not> upload_complete ?sh0" by simp_all
  then have "SET_UPLOAD_COMPLETE \<notin> set (pending (run_worker (ul_schedule w 0) ?sh0))
      \<and> \<not> upload_complete (run_worker (ul_schedule w 0) ?sh0)"
    by (rule run_worker_upload_waiting)
  then show ?thesis using a upload_loop_waiting by blast
qed

theorem upload_loop_exits_only_on_failure_witness:
  "post example_world =
     Inr \<lparr>status = Some (lit ''ok''), data_message = None,
          data_downloadPage = Some (lit ''https://gofile.io/d/XYZ'')\<rparr>
   \<and> (\<forall>fuel r. snd (upload_loop example_world 1000 (lit ''f.bin'') fuel 0
          (run_worker (ul_schedule example_world 0)
             (\<lparr>downloaded = 1000, download_complete = True, uploaded = 0,
               upload_complete = False, pending = []\<rparr>
              \<lparr>uploaded := 0, upload_complete := False,
               pending := upload_thread ENTERED (upload_reads example_world)
                            (post example_world)\<rparr>)) 0 []) \<noteq> DONE r)"
proof -
  have h: "post example_world =
     Inr \<lparr>status = Some (lit ''ok''), data_message = None,
          data_downloadPage = Some (lit ''https://gofile.io/d/XYZ'')\<rparr>"
    by (simp add: example_world_def)
  from h upload_loop_exits_only_on_failure [OF h] show ?thesis by blast
qed

text \<open>
  C2, as the code has it: whatever the upload response is, the handler never shows a
  \<^verbatim>\<open>Gofile error\<close> message, and it never shows a success message with a download
  link either.
\<close>

theorem upload_error_never_reported:
  "EDIT (ERROR_MSG (Exception (lit ''Gofile error: '' @ m)))
      \<notin> set (fst (handle_gofile lk w s user_id args fuel))
   \<and> EDIT (SUCCESS_MSG n u) \<notin> set (fst (handle_gofile lk w s user_id args fuel))"
proof -
  from handle_gofile_trace [of lk w s user_id args fuel]
  consider msg where "handle_gofile lk w s user_id args fuel = ([REPLY msg], RETURNED)"
    | evs' r where "transfer lk w (join (lit '' '') args) fuel = (evs', r)"
        "handle_gofile lk w s user_id args fuel =
          (case r of WAITING \<Rightarrow> (evs', RUNNING)
                   | RAISED e \<Rightarrow> (evs' @ [EDIT (ERROR_MSG e)], RETURNED)
                   | DONE _ \<Rightarrow> (evs', RETURNED))"
    by blast
  then show ?thesis
  proof cases
    case 1
    then show ?thesis by simp
  next
    case 2
    from transfer_trace [OF 2(1)] obtain new where
      new: "evs' = [REPLY STARTING_DOWNLOAD_MSG, MEGA_GET_PUBLIC_FILE (join (lit '' '') args)] @ new"
        "\<forall>x \<in> set new. (\<forall>n u. x \<noteq> EDIT (SUCCESS_MSG n u)) \<and> (\<forall>e. x \<noteq> EDIT (ERROR_MSG e))"
      and r: "\<forall>m. r = RAISED (Exception m) \<longrightarrow> m = lit ''Download failed''" by blast
    have ev: "EDIT (ERROR_MSG (Exception (lit ''Gofile error: '' @ m))) \<notin> set evs'"
      "EDIT (SUCCESS_MSG n u) \<notin> set evs'"
      using new by auto
    have "lit ''Gofile error: '' @ m \<noteq> lit ''Download failed''" by (simp add: lit_def)
    with r have "r \<noteq> RAISED (Exception (lit ''Gofile error: '' @ m))" by blast
    with ev 2(2) show ?thesis by (cases r) auto
  qed
qed

theorem upload_error_never_reported_witness:
  "handle_gofile ENTER_RAISES upload_error_world (initial_state 1) 1
       [lit ''https://mega.nz/file/abc''] 3
     = ([REPLY STARTING_DOWNLOAD_MSG,
         MEGA_GET_PUBLIC_FILE (lit ''https://mega.nz/file/abc''),
         START_DOWNLOAD_THREAD (lit ''https://mega.nz/file/abc''),
         EDIT STARTING_UPLOAD_MSG, GOFILE_GET_SERVERS,
         START_UPLOAD_THREAD (lit ''https://store1.gofile.io/uploadFile'') (lit ''f.bin''),
         EDIT (UPLOADING_MSG (lit ''f.bin'') (renderBar 100))],
        RUNNING)
   \<and> (\<forall>fuel. EDIT (ERROR_MSG (Exception (lit ''Gofile error: '' @ lit ''quota'')))
          \<notin> set (fst (handle_gofile ENTER_RAISES upload_error_world (initial_state 1) 1
                         [lit ''https://mega.nz/file/abc''] fuel)))"
proof -
  have "handle_gofile ENTER_RAISES upload_error_world (initial_state 1) 1
       [lit ''https://mega.nz/file/abc''] 3
     = ([REPLY STARTING_DOWNLOAD_MSG,
         MEGA_GET_PUBLIC_FILE (lit ''https://mega.nz/file/abc''),
         START_DOWNLOAD_THREAD (lit ''https://mega.nz/file/abc''),
         EDIT STARTING_UPLOAD_MSG, GOFILE_GET_SERVERS,
         START_UPLOAD_THREAD (lit ''https://store1.gofile.io/uploadFile'') (lit ''f.bin''),
         EDIT (UPLOADING_MSG (lit ''f.bin'') (renderBar 100))],
        RUNNING)"
    by (simp add: run_eval)
  with upload_error_never_reported show ?thesis by blast
qed

end
